theory Spec2Isabelle
  imports Complex_Main "HOL-Library.Word" "HOL-Library.Sublist"
begin

unbundle bit_operations_syntax

section \<open>Strings\<close>

text \<open>
  A JavaScript string is a sequence of UTF-16 code units. It is modelled as a
  \<^typ>\<open>string\<close> whose characters are the code units \<open>0 .. 255\<close> (ASCII and Latin-1), and
  every string function below does on these what the JavaScript built-in does on the
  same code units. Text with code units above 255 is outside the model.
\<close>

definition isDigit :: "char \<Rightarrow> bool" where
  \<comment> \<open>the regular expression class \<open>\d\<close>\<close>
  "isDigit c = (c \<in> set ''0123456789'')"

definition isSpace :: "char \<Rightarrow> bool" where
  \<comment> \<open>the class \<open>\s\<close>, also what \<open>trim\<close> removes: TAB, LF, VT, FF, CR, SP and NBSP\<close>
  "isSpace c = (c \<in> set [CHR 0x09, CHR 0x0A, CHR 0x0B, CHR 0x0C, CHR 0x0D, CHR 0x20, CHR 0xA0])"

definition isWord :: "char \<Rightarrow> bool" where
  \<comment> \<open>the class \<open>\w\<close>\<close>
  "isWord c = (c \<in> set ''abcdefghijklmnopqrstuvwxyzABCDEFGHIJKLMNOPQRSTUVWXYZ0123456789_'')"

definition lowerChar :: "char \<Rightarrow> char" where
  "lowerChar c =
     (let n = (of_char c :: nat)
      in if (65 \<le> n \<and> n \<le> 90) \<or> (192 \<le> n \<and> n \<le> 222 \<and> n \<noteq> 215)
         then char_of (n + 32) else c)"

lemma lowerChar_Char [code]:
  "lowerChar (Char b0 b1 b2 b3 b4 b5 b6 b7) =
     (if \<not> b5 \<and> b6 \<and>
         ((\<not> b7 \<and> (b0 \<or> b1 \<or> b2 \<or> b3 \<or> b4) \<and> \<not> (b4 \<and> b3 \<and> (b2 \<or> (b1 \<and> b0)))) \<or>
          (b7 \<and> \<not> (b4 \<and> \<not> b3 \<and> b2 \<and> b1 \<and> b0) \<and> \<not> (b4 \<and> b3 \<and> b2 \<and> b1 \<and> b0)))
      then Char b0 b1 b2 b3 b4 True b6 b7
      else Char b0 b1 b2 b3 b4 b5 b6 b7)"
  by (cases b0; cases b1; cases b2; cases b3; cases b4; cases b5; cases b6; cases b7;
      simp add: lowerChar_def char_of_def bit_0)

definition toLowerCase :: "string \<Rightarrow> string" where
  "toLowerCase s = map lowerChar s"

definition trim :: "string \<Rightarrow> string" where
  "trim s = rev (dropWhile isSpace (rev (dropWhile isSpace s)))"

fun includesStr :: "string \<Rightarrow> string \<Rightarrow> bool" where
  \<comment> \<open>\<open>s.includes(t)\<close>: \<open>t\<close> occurs in \<open>s\<close> as a contiguous substring\<close>
  "includesStr [] t = (t = [])"
| "includesStr (c # cs) t = (prefix t (c # cs) \<or> includesStr cs t)"

section \<open>Numbers\<close>

text \<open>
  A JavaScript number is an IEEE 754 double. The finite doubles are modelled by their exact
  rational values, and every arithmetic operation rounds its exact result to the nearest
  double, ties to even, as the hardware does. The two zeros are one value (the program
  never tells them apart: both print as \<open>0\<close>); NaN does not arise from the operations
  modelled.
\<close>

datatype jsnum = Finite rat | PosInfinity | NegInfinity

function bits :: "int \<Rightarrow> int" where
  \<comment> \<open>the length of the binary numeral of a positive \<open>n\<close>\<close>
  "bits n = (if n \<le> 0 then 0 else bits (n div 2) + 1)"
  by pat_completeness auto
termination
  by (relation "measure nat") auto

declare bits.simps [simp del]

definition pow2 :: "int \<Rightarrow> rat" where
  "pow2 k = (if 0 \<le> k then 2 ^ nat k else 1 / 2 ^ nat (- k))"

definition ilog2 :: "rat \<Rightarrow> int" where
  \<comment> \<open>for \<open>x > 0\<close>, the exponent \<open>e\<close> with \<open>2 ^ e \<le> x < 2 ^ (e + 1)\<close>\<close>
  "ilog2 x =
     (let (n, d) = quotient_of x;
          k = bits n - bits d
      in if pow2 k \<le> x then k else k - 1)"

definition roundHalfEven :: "rat \<Rightarrow> int" where
  "roundHalfEven x =
     (let f = \<lfloor>x\<rfloor>; d = x - of_int f
      in if d < 1 / 2 then f else if 1 / 2 < d then f + 1 else if even f then f else f + 1)"

definition fl64 :: "rat \<Rightarrow> jsnum" where
  \<comment> \<open>rounding to the nearest double: 53 significant bits, least exponent \<open>-1074\<close>,
      overflow to infinity from \<open>2 ^ 1024\<close>\<close>
  "fl64 x =
     (if x = 0 then Finite 0
      else let a = \<bar>x\<bar>;
               q = max (ilog2 a - 52) (- 1074);
               r = of_int (roundHalfEven (a / pow2 q)) * pow2 q
           in if pow2 1024 \<le> r then (if x < 0 then NegInfinity else PosInfinity)
              else Finite (if x < 0 then - r else r))"

definition jsTimes :: "jsnum \<Rightarrow> rat \<Rightarrow> jsnum" where
  \<comment> \<open>\<open>x * c\<close> for a positive finite constant \<open>c\<close>\<close>
  "jsTimes x c =
     (case x of Finite a \<Rightarrow> fl64 (a * c) | PosInfinity \<Rightarrow> PosInfinity | NegInfinity \<Rightarrow> NegInfinity)"

definition mathRound :: "jsnum \<Rightarrow> jsnum" where
  \<comment> \<open>\<open>Math.round\<close>: the nearest integer, a tie going toward positive infinity; a value
      that is not finite is returned as it is\<close>
  "mathRound x =
     (case x of Finite p \<Rightarrow> Finite (of_int \<lfloor>p + 1 / 2\<rfloor>)
      | PosInfinity \<Rightarrow> PosInfinity | NegInfinity \<Rightarrow> NegInfinity)"

definition toMinorUnits :: "jsnum \<Rightarrow> jsnum" where
  "toMinorUnits amount = mathRound (jsTimes amount 100)"

section \<open>SHA-256\<close>

text \<open>
  \<open>crypto.createHash("sha256").update(s).digest("hex")\<close> is the SHA-256 digest (FIPS 180-4)
  of the UTF-8 encoding of \<open>s\<close>, printed as 64 lower-case hexadecimal digits.
\<close>

definition utf8 :: "string \<Rightarrow> 8 word list" where
  \<comment> \<open>a code unit below 128 is one byte, one from 128 to 255 is two bytes\<close>
  "utf8 s =
     concat (map (\<lambda>c. let n = (of_char c :: nat)
                       in if n < 128 then [of_nat n]
                          else [of_nat (192 + n div 64), of_nat (128 + n mod 64)]) s)"

definition sha256_K :: "32 word list" where
  "sha256_K =
     [1116352408, 1899447441, 3049323471, 3921009573,
      961987163, 1508970993, 2453635748, 2870763221,
      3624381080, 310598401, 607225278, 1426881987,
      1925078388, 2162078206, 2614888103, 3248222580,
      3835390401, 4022224774, 264347078, 604807628,
      770255983, 1249150122, 1555081692, 1996064986,
      2554220882, 2821834349, 2952996808, 3210313671,
      3336571891, 3584528711, 113926993, 338241895,
      666307205, 773529912, 1294757372, 1396182291,
      1695183700, 1986661051, 2177026350, 2456956037,
      2730485921, 2820302411, 3259730800, 3345764771,
      3516065817, 3600352804, 4094571909, 275423344,
      430227734, 506948616, 659060556, 883997877,
      958139571, 1322822218, 1537002063, 1747873779,
      1955562222, 2024104815, 2227730452, 2361852424,
      2428436474, 2756734187, 3204031479, 3329325298]"

definition sha256_H0 :: "32 word list" where
  "sha256_H0 =
     [1779033703, 3144134277, 1013904242, 2773480762, 1359893119, 2600822924, 528734635, 1541459225]"

definition pad :: "8 word list \<Rightarrow> 8 word list" where
  \<comment> \<open>the byte \<open>0x80\<close>, zero bytes up to 56 modulo 64, the bit length as 64 bits, big-endian\<close>
  "pad m =
     (let l = length m;
          z = (55 - int l) mod 64
      in m @ [0x80] @ replicate (nat z) 0 @
         map (\<lambda>i. ucast (drop_bit (8 * (7 - i)) (of_nat (8 * l) :: 64 word))) [0..<8])"

fun words32 :: "8 word list \<Rightarrow> 32 word list" where
  \<comment> \<open>four bytes to a big-endian word\<close>
  "words32 (a # b # c # d # rest) =
     (push_bit 24 (ucast a) OR push_bit 16 (ucast b) OR push_bit 8 (ucast c) OR ucast d)
       # words32 rest"
| "words32 _ = []"

fun blocks :: "nat \<Rightarrow> 'a list \<Rightarrow> 'a list list" where
  \<comment> \<open>the first \<open>n\<close> successive blocks of sixteen words\<close>
  "blocks 0 xs = []"
| "blocks (Suc n) xs = take 16 xs # blocks n (drop 16 xs)"

definition rotr :: "nat \<Rightarrow> 32 word \<Rightarrow> 32 word" where
  "rotr n x = drop_bit n x OR push_bit (32 - n) x"

definition ssig0 :: "32 word \<Rightarrow> 32 word" where
  "ssig0 x = rotr 7 x XOR rotr 18 x XOR drop_bit 3 x"

definition ssig1 :: "32 word \<Rightarrow> 32 word" where
  "ssig1 x = rotr 17 x XOR rotr 19 x XOR drop_bit 10 x"

definition bsig0 :: "32 word \<Rightarrow> 32 word" where
  "bsig0 x = rotr 2 x XOR rotr 13 x XOR rotr 22 x"

definition bsig1 :: "32 word \<Rightarrow> 32 word" where
  "bsig1 x = rotr 6 x XOR rotr 11 x XOR rotr 25 x"

definition Ch :: "32 word \<Rightarrow> 32 word \<Rightarrow> 32 word \<Rightarrow> 32 word" where
  "Ch x y z = (x AND y) XOR (NOT x AND z)"

definition Maj :: "32 word \<Rightarrow> 32 word \<Rightarrow> 32 word \<Rightarrow> 32 word" where
  "Maj x y z = (x AND y) XOR (x AND z) XOR (y AND z)"

fun schedule :: "nat \<Rightarrow> 32 word list \<Rightarrow> 32 word list" where
  \<comment> \<open>the message schedule, latest word first: \<open>n\<close> more words after the sixteen of the block\<close>
  "schedule 0 w = w"
| "schedule (Suc n) w =
     schedule n ((ssig1 (w ! 1) + w ! 6 + ssig0 (w ! 14) + w ! 15) # w)"

type_synonym sha_state =
  "32 word \<times> 32 word \<times> 32 word \<times> 32 word \<times> 32 word \<times> 32 word \<times> 32 word \<times> 32 word"

fun sha_round :: "sha_state \<Rightarrow> 32 word \<times> 32 word \<Rightarrow> sha_state" where
  "sha_round (a, b, c, d, e, f, g, h) (k, w) =
     (let t1 = h + bsig1 e + Ch e f g + k + w;
          t2 = bsig0 a + Maj a b c
      in (t1 + t2, a, b, c, d + t1, e, f, g))"

fun compress :: "sha_state \<Rightarrow> 32 word list \<Rightarrow> sha_state" where
  "compress (a, b, c, d, e, f, g, h) block =
     (case foldl sha_round (a, b, c, d, e, f, g, h) (zip sha256_K (rev (schedule 48 (rev block)))) of
        (a', b', c', d', e', f', g', h') \<Rightarrow>
          (a + a', b + b', c + c', d + d', e + e', f + f', g + g', h + h'))"

definition sha256_words :: "8 word list \<Rightarrow> sha_state" where
  "sha256_words m =
     (let p = words32 (pad m)
      in foldl compress
           (sha256_H0 ! 0, sha256_H0 ! 1, sha256_H0 ! 2, sha256_H0 ! 3,
            sha256_H0 ! 4, sha256_H0 ! 5, sha256_H0 ! 6, sha256_H0 ! 7)
           (blocks (length p div 16) p))"

definition hexDigit :: "32 word \<Rightarrow> char" where
  \<comment> \<open>the digit of the low four bits\<close>
  "hexDigit w = ''0123456789abcdef'' ! unat (w AND 0xF)"

definition hex32 :: "32 word \<Rightarrow> string" where
  "hex32 w = map (\<lambda>i. hexDigit (drop_bit (4 * (7 - i)) w)) [0..<8]"

definition sha256 :: "string \<Rightarrow> string" where
  "sha256 s =
     (case sha256_words (utf8 s) of
        (a, b, c, d, e, f, g, h) \<Rightarrow>
          hex32 a @ hex32 b @ hex32 c @ hex32 d @ hex32 e @ hex32 f @ hex32 g @ hex32 h)"

section \<open>The idempotency key\<close>

function decimal :: "int \<Rightarrow> string" where
  \<comment> \<open>the decimal numeral of a non-negative integer\<close>
  "decimal n =
     (if n < 10 then [''0123456789'' ! nat n]
      else decimal (n div 10) @ [''0123456789'' ! nat (n mod 10)])"
  by pat_completeness auto
termination
  by (relation "measure nat") auto

declare decimal.simps [simp del]

text \<open>
  A number inside a template literal is printed by \<open>Number::toString\<close> (ECMAScript,
  radix 10): for a positive number \<open>v\<close>, let \<open>n\<close>, \<open>k\<close> and \<open>s\<close> be integers such that
  \<open>k \<ge> 1\<close>, \<open>10 ^ (k - 1) \<le> s < 10 ^ k\<close>, the double nearest to \<open>s * 10 ^ (n - k)\<close> is
  \<open>v\<close>, and \<open>k\<close> is as small as possible; of several such \<open>s\<close> the one whose value is
  closest to \<open>v\<close>, of two equally close ones the even one. If \<open>k \<le> n \<le> 21\<close> the result is
  the digits of \<open>s\<close> followed by \<open>n - k\<close> zeros; if \<open>n > 21\<close> it is the exponent notation
  (\<open>1e+21\<close>, \<open>1.2345e+25\<close>). Here the number is \<open>amountInt\<close>, the result of
  \<open>Math.round\<close>: an integer, so the cases with a decimal point do not arise (the
  integer itself has at most \<open>n\<close> digits and is read back as \<open>v\<close>).
\<close>

definition roundTrips :: "int \<Rightarrow> int \<Rightarrow> bool" where
  \<comment> \<open>the double nearest to the integer \<open>m\<close> is \<open>v\<close>\<close>
  "roundTrips m v = (fl64 (of_int m) = Finite (of_int v))"

definition candidate :: "int \<Rightarrow> nat \<Rightarrow> nat \<Rightarrow> (int \<times> nat) option" where
  \<comment> \<open>for \<open>v\<close> of \<open>d\<close> digits and \<open>k = d - j\<close>: the \<open>s\<close> of \<open>k\<close> digits, with its \<open>n\<close>,
      for which \<open>s * 10 ^ j\<close> is read back as \<open>v\<close>, if there is one. Only the two multiples
      of \<open>10 ^ j\<close> next to \<open>v\<close> can be; when the upper one is \<open>10 ^ d\<close> it has one digit
      more, so \<open>s\<close> is \<open>10 ^ (k - 1)\<close> and \<open>n\<close> is \<open>d + 1\<close>\<close>
  "candidate v d j =
     (let p = 10 ^ j; lo = v div p; hi = lo + 1;
          okLo = roundTrips (lo * p) v; okHi = roundTrips (hi * p) v;
          s = (if okLo \<and> okHi
               then (if v - lo * p < hi * p - v then lo
                     else if hi * p - v < v - lo * p then hi
                     else if even lo then lo else hi)
               else if okLo then lo else hi)
      in if okLo \<or> okHi
         then Some (if s = 10 ^ (d - j) then (10 ^ (d - j - 1), d + 1) else (s, d))
         else None)"

fun shortestDigits :: "int \<Rightarrow> nat \<Rightarrow> nat \<Rightarrow> int \<times> nat" where
  \<comment> \<open>the search for the least \<open>k\<close>: \<open>k = d - j\<close> for \<open>j = d - 1, ..., 0\<close>. With \<open>j = 0\<close>
      the candidate is \<open>v\<close> itself, which is read back as \<open>v\<close> when \<open>v\<close> is a double\<close>
  "shortestDigits v d 0 = (case candidate v d 0 of Some r \<Rightarrow> r | None \<Rightarrow> (v, d))"
| "shortestDigits v d (Suc j) =
     (case candidate v d (Suc j) of Some r \<Rightarrow> r | None \<Rightarrow> shortestDigits v d j)"

definition formatDigits :: "int \<Rightarrow> nat \<Rightarrow> string" where
  \<comment> \<open>the digits of \<open>s\<close> and \<open>n\<close> as text, for \<open>k \<le> n\<close>\<close>
  "formatDigits s n =
     (let ds = decimal s; k = length ds
      in if n \<le> 21 then ds @ replicate (n - k) (CHR ''0'')
         else (if k = 1 then ds else hd ds # CHR ''.'' # tl ds) @ ''e+'' @ decimal (int n - 1))"

definition positiveToString :: "int \<Rightarrow> string" where
  "positiveToString v =
     (let d = length (decimal v); (s, n) = shortestDigits v d (d - 1) in formatDigits s n)"

definition numberToString :: "int \<Rightarrow> string" where
  \<comment> \<open>\<open>Number::toString\<close> of an integral double; both zeros print as \<open>0\<close>\<close>
  "numberToString v =
     (if v = 0 then ''0''
      else if v < 0 then CHR ''-'' # positiveToString (- v)
      else positiveToString v)"

definition orEmpty :: "string option \<Rightarrow> string" where
  \<comment> \<open>\<open>description ?? ""\<close>\<close>
  "orEmpty d = (case d of None \<Rightarrow> [] | Some s \<Rightarrow> s)"

definition numberText :: "jsnum \<Rightarrow> string" where
  \<comment> \<open>the number \<open>amountInt\<close> inside the template literal; it is integral or infinite\<close>
  "numberText x =
     (case x of Finite r \<Rightarrow> numberToString \<lfloor>r\<rfloor>
      | PosInfinity \<Rightarrow> ''Infinity'' | NegInfinity \<Rightarrow> ''-Infinity'')"

definition isMinorAmount :: "jsnum \<Rightarrow> bool" where
  \<comment> \<open>what \<open>Math.round\<close> can return: an integer that is a double, or an infinity\<close>
  "isMinorAmount x =
     (case x of Finite r \<Rightarrow> r = of_int \<lfloor>r\<rfloor> \<and> roundTrips \<lfloor>r\<rfloor> \<lfloor>r\<rfloor>
      | PosInfinity \<Rightarrow> True | NegInfinity \<Rightarrow> True)"

definition keyInput :: "string \<Rightarrow> string \<Rightarrow> jsnum \<Rightarrow> string option \<Rightarrow> string" where
  \<comment> \<open>the template literal that is hashed\<close>
  "keyInput sms finalDate amountInt description =
     sms @ ''||'' @ finalDate @ ''||'' @ numberText amountInt @ ''||'' @ orEmpty description"

definition idKey :: "string \<Rightarrow> string \<Rightarrow> jsnum \<Rightarrow> string option \<Rightarrow> string" where
  \<comment> \<open>\<open>sha256(...).slice(0, 32)\<close>\<close>
  "idKey sms finalDate amountInt description =
     take 32 (sha256 (keyInput sms finalDate amountInt description))"

definition collide :: "string \<Rightarrow> string \<Rightarrow> bool" where
  \<comment> \<open>a collision of the truncated hash: two different texts with the same first 32
      digits of the digest\<close>
  "collide s t = (s \<noteq> t \<and> take 32 (sha256 s) = take 32 (sha256 t))"

definition roundDiv :: "int \<Rightarrow> int \<Rightarrow> int" where
  \<comment> \<open>the integer nearest to \<open>a / b\<close> for a positive \<open>b\<close>, a tie going to the even one\<close>
  "roundDiv a b =
     (let f = a div b; r = a mod b
      in if 2 * r < b then f else if b < 2 * r then f + 1 else if even f then f else f + 1)"

definition fl64int :: "int \<Rightarrow> int" where
  \<comment> \<open>the double nearest to an integer \<open>m\<close> of more than 53 bits, on the integers\<close>
  "fl64int m = (let q = nat (bits m - 53) in roundDiv m (2 ^ q) * 2 ^ q)"

definition repValue :: "int \<Rightarrow> nat \<Rightarrow> int" where
  \<comment> \<open>the integer that the digits \<open>s\<close> and \<open>n\<close> stand for\<close>
  "repValue s n = s * 10 ^ (n - length (decimal s))"

definition digitVal :: "char \<Rightarrow> int" where
  \<comment> \<open>the value of a decimal digit\<close>
  "digitVal c =
     (case map_of (zip ''0123456789'' [0, 1, 2, 3, 4, 5, 6, 7, 8, 9]) c of
        Some v \<Rightarrow> v
      | None \<Rightarrow> 0)"

section \<open>JSON\<close>

text \<open>
  \<open>JSON.parse\<close> is a built-in; it is modelled from the JSON grammar (ECMA-404): a lexer
  that reads the text character by character and a stack automaton over the tokens. A
  number is the double nearest to its decimal numeral. An object keeps its members in the
  order of the text; reading a member takes the last one of that name, as later
  duplicates overwrite earlier ones. An escape \<open>\uXXXX\<close> above \<open>00FF\<close> denotes a
  code unit outside the model and is rejected.
\<close>

datatype json =
    JNull
  | JBool bool
  | JNumber jsnum
  | JString string
  | JArray "json list"
  | JObject "(string \<times> json) list"

datatype token =
    TLBrace | TRBrace | TLBracket | TRBracket | TColon | TComma
  | TString string | TNumber jsnum | TTrue | TFalse | TNull

datatype lexmode =
    LStart
  | LString string
  | LEscape string
  | LUnicode string string
  | LNumber string
  | LLiteral string token

definition pow10 :: "int \<Rightarrow> rat" where
  "pow10 k = (if 0 \<le> k then 10 ^ nat k else 1 / 10 ^ nat (- k))"

definition digitsValue :: "string \<Rightarrow> int" where
  "digitsValue s = foldl (\<lambda>a c. 10 * a + digitVal c) 0 s"

definition numberValue :: "string \<Rightarrow> rat option" where
  \<comment> \<open>the value of a numeral \<open>-?(0|[1-9][0-9]*)(\.[0-9]+)?([eE][+-]?[0-9]+)?\<close>\<close>
  "numberValue s =
     (let (neg, s1) = (case s of c # r \<Rightarrow> if c = CHR ''-'' then (True, r) else (False, s)
                       | [] \<Rightarrow> (False, s));
          ip = takeWhile isDigit s1;
          s2 = dropWhile isDigit s1;
          (fp, s3) = (case s2 of c # r \<Rightarrow>
                          if c = CHR ''.'' then (Some (takeWhile isDigit r), dropWhile isDigit r)
                          else (None, s2)
                      | [] \<Rightarrow> (None, s2));
          (ex, s4) = (case s3 of c # r \<Rightarrow>
                          if c = CHR ''e'' \<or> c = CHR ''E''
                          then (let (eneg, r') =
                                      (case r of d # r'' \<Rightarrow>
                                           if d = CHR ''-'' then (True, r'')
                                           else if d = CHR ''+'' then (False, r'')
                                           else (False, r)
                                       | [] \<Rightarrow> (False, r))
                                in (Some (eneg, takeWhile isDigit r'), dropWhile isDigit r'))
                          else (None, s3)
                      | [] \<Rightarrow> (None, s3))
      in if ip = [] \<or> (hd ip = CHR ''0'' \<and> 1 < length ip) \<or> fp = Some [] \<or>
            (case ex of Some (_, ds) \<Rightarrow> ds = [] | None \<Rightarrow> False) \<or> s4 \<noteq> []
         then None
         else let frac = (case fp of Some ds \<Rightarrow> ds | None \<Rightarrow> []);
                  e = (case ex of Some (eneg, ds) \<Rightarrow>
                         if eneg then - digitsValue ds else digitsValue ds
                       | None \<Rightarrow> 0);
                  m = of_int (digitsValue (ip @ frac)) * pow10 (e - int (length frac))
              in Some (if neg then - m else m))"

definition isJsonSpace :: "char \<Rightarrow> bool" where
  "isJsonSpace c = (c \<in> set [CHR 0x20, CHR 0x09, CHR 0x0A, CHR 0x0D])"

definition isNumberChar :: "char \<Rightarrow> bool" where
  "isNumberChar c = (isDigit c \<or> c \<in> set ''+-.eE'')"

definition hexVal :: "char \<Rightarrow> nat option" where
  "hexVal c =
     (case map_of (zip ''0123456789abcdef'' [0..<16]) c of
        Some n \<Rightarrow> Some n
      | None \<Rightarrow> map_of (zip ''ABCDEF'' [10..<16]) c)"

definition escapeChar :: "char \<Rightarrow> char option" where
  \<comment> \<open>the character after a backslash in a string\<close>
  "escapeChar c =
     map_of [(CHR 0x22, CHR 0x22), (CHR 0x5C, CHR 0x5C), (CHR ''/'', CHR ''/''),
             (CHR ''b'', CHR 0x08), (CHR ''f'', CHR 0x0C), (CHR ''n'', CHR 0x0A),
             (CHR ''r'', CHR 0x0D), (CHR ''t'', CHR 0x09)] c"

definition startChar :: "char \<Rightarrow> (lexmode \<times> token list) option" where
  \<comment> \<open>a character between tokens\<close>
  "startChar c =
     (if isJsonSpace c then Some (LStart, [])
      else if c = CHR ''{'' then Some (LStart, [TLBrace])
      else if c = CHR ''}'' then Some (LStart, [TRBrace])
      else if c = CHR ''['' then Some (LStart, [TLBracket])
      else if c = CHR '']'' then Some (LStart, [TRBracket])
      else if c = CHR '':'' then Some (LStart, [TColon])
      else if c = CHR '','' then Some (LStart, [TComma])
      else if c = CHR 0x22 then Some (LString [], [])
      else if c = CHR ''-'' \<or> isDigit c then Some (LNumber [c], [])
      else if c = CHR ''t'' then Some (LLiteral ''rue'' TTrue, [])
      else if c = CHR ''f'' then Some (LLiteral ''alse'' TFalse, [])
      else if c = CHR ''n'' then Some (LLiteral ''ull'' TNull, [])
      else None)"

fun lexStep :: "lexmode \<Rightarrow> char \<Rightarrow> (lexmode \<times> token list) option" where
  "lexStep LStart c = startChar c"
| "lexStep (LString acc) c =
     (if c = CHR 0x22 then Some (LStart, [TString acc])
      else if c = CHR 0x5C then Some (LEscape acc, [])
      else if (of_char c :: nat) < 32 then None
      else Some (LString (acc @ [c]), []))"
| "lexStep (LEscape acc) c =
     (case escapeChar c of
        Some d \<Rightarrow> Some (LString (acc @ [d]), [])
      | None \<Rightarrow> if c = CHR ''u'' then Some (LUnicode acc [], []) else None)"
| "lexStep (LUnicode acc hs) c =
     (case hexVal c of
        None \<Rightarrow> None
      | Some _ \<Rightarrow>
          if length hs < 3 then Some (LUnicode acc (hs @ [c]), [])
          else (let n = foldl (\<lambda>a h. 16 * a + (case hexVal h of Some v \<Rightarrow> v | None \<Rightarrow> 0)) 0 (hs @ [c])
                in if n < 256 then Some (LString (acc @ [char_of n]), []) else None))"
| "lexStep (LNumber acc) c =
     (if isNumberChar c then Some (LNumber (acc @ [c]), [])
      else (case numberValue acc of
              None \<Rightarrow> None
            | Some v \<Rightarrow>
                (case startChar c of
                   None \<Rightarrow> None
                 | Some (m, ts) \<Rightarrow> Some (m, TNumber (fl64 v) # ts))))"
| "lexStep (LLiteral rest tok) c =
     (case rest of
        [] \<Rightarrow> None
      | x # xs \<Rightarrow>
          if c = x then (if xs = [] then Some (LStart, [tok]) else Some (LLiteral xs tok, []))
          else None)"

fun lex :: "lexmode \<Rightarrow> string \<Rightarrow> token list option" where
  "lex m [] =
     (case m of
        LStart \<Rightarrow> Some []
      | LNumber acc \<Rightarrow> (case numberValue acc of None \<Rightarrow> None | Some v \<Rightarrow> Some [TNumber (fl64 v)])
      | _ \<Rightarrow> None)"
| "lex m (c # cs) =
     (case lexStep m c of
        None \<Rightarrow> None
      | Some (m', ts) \<Rightarrow> (case lex m' cs of None \<Rightarrow> None | Some rest \<Rightarrow> Some (ts @ rest)))"

datatype frame =
    FArray "json list"
  | FObject "(string \<times> json) list"
  | FMember "(string \<times> json) list" string

datatype expect = EValue | EValueOrEnd | EKeyOrEnd | EKey | EColon | ECommaOrEnd | EDone json

fun place :: "json \<Rightarrow> frame list \<Rightarrow> (expect \<times> frame list) option" where
  \<comment> \<open>a finished value goes to the enclosing array or member, or is the result\<close>
  "place v [] = Some (EDone v, [])"
| "place v (FArray es # st) = Some (ECommaOrEnd, FArray (es @ [v]) # st)"
| "place v (FMember ps k # st) = Some (ECommaOrEnd, FObject (ps @ [(k, v)]) # st)"
| "place v (FObject ps # st) = None"

fun startValue :: "token \<Rightarrow> frame list \<Rightarrow> (expect \<times> frame list) option" where
  "startValue TLBracket st = Some (EValueOrEnd, FArray [] # st)"
| "startValue TLBrace st = Some (EKeyOrEnd, FObject [] # st)"
| "startValue (TString s) st = place (JString s) st"
| "startValue (TNumber n) st = place (JNumber n) st"
| "startValue TTrue st = place (JBool True) st"
| "startValue TFalse st = place (JBool False) st"
| "startValue TNull st = place JNull st"
| "startValue _ st = None"

fun closeFrame :: "token \<Rightarrow> frame list \<Rightarrow> (expect \<times> frame list) option" where
  "closeFrame TRBracket (FArray es # st) = place (JArray es) st"
| "closeFrame TRBrace (FObject ps # st) = place (JObject ps) st"
| "closeFrame _ _ = None"

fun startMember :: "token \<Rightarrow> frame list \<Rightarrow> (expect \<times> frame list) option" where
  "startMember (TString k) (FObject ps # st) = Some (EColon, FMember ps k # st)"
| "startMember _ _ = None"

fun parseStep :: "expect \<times> frame list \<Rightarrow> token \<Rightarrow> (expect \<times> frame list) option" where
  "parseStep (EValue, st) t = startValue t st"
| "parseStep (EValueOrEnd, st) t = (if t = TRBracket then closeFrame t st else startValue t st)"
| "parseStep (EKeyOrEnd, st) t = (if t = TRBrace then closeFrame t st else startMember t st)"
| "parseStep (EKey, st) t = startMember t st"
| "parseStep (EColon, st) t = (if t = TColon then Some (EValue, st) else None)"
| "parseStep (ECommaOrEnd, st) t =
     (if t = TComma
      then (case st of
              FArray es # _ \<Rightarrow> Some (EValue, st)
            | FObject ps # _ \<Rightarrow> Some (EKey, st)
            | _ \<Rightarrow> None)
      else closeFrame t st)"
| "parseStep (EDone v, st) t = None"

fun parseTokens :: "expect \<times> frame list \<Rightarrow> token list \<Rightarrow> json option" where
  "parseTokens (e, st) [] = (case e of EDone v \<Rightarrow> Some v | _ \<Rightarrow> None)"
| "parseTokens (e, st) (t # ts) =
     (case parseStep (e, st) t of None \<Rightarrow> None | Some s \<Rightarrow> parseTokens s ts)"

definition JSON_parse :: "string \<Rightarrow> json option" where
  \<comment> \<open>\<open>None\<close> is the SyntaxError that \<open>JSON.parse\<close> throws\<close>
  "JSON_parse s = (case lex LStart s of None \<Rightarrow> None | Some ts \<Rightarrow> parseTokens (EValue, []) ts)"

definition member :: "json \<Rightarrow> string \<Rightarrow> json option" where
  \<comment> \<open>\<open>v.k\<close> for a name \<open>k\<close> that no prototype defines; \<open>None\<close> is \<open>undefined\<close>\<close>
  "member v k = (case v of JObject ps \<Rightarrow> map_of (rev ps) k | _ \<Rightarrow> None)"

definition optMember :: "json option \<Rightarrow> string \<Rightarrow> json option" where
  \<comment> \<open>\<open>v?.k\<close>\<close>
  "optMember v k = (case v of None \<Rightarrow> None | Some JNull \<Rightarrow> None | Some j \<Rightarrow> member j k)"

definition quoted :: "string \<Rightarrow> string" where
  \<comment> \<open>a text between double quotes, for the examples\<close>
  "quoted s = CHR 0x22 # s @ [CHR 0x22]"

section \<open>The catalog\<close>

record account =
  id' :: string
  name :: string
  closed :: bool

record category =
  id' :: string
  name :: string
  hidden :: bool

record cache =
  actualReady :: bool
  actualAccounts :: "account list"
  actualCategories :: "category list"

section \<open>Matching helpers\<close>

fun extractDigits :: "string \<Rightarrow> string list" where
  \<comment> \<open>\<open>str.match(/\d{4}/g) || []\<close>: the matches of a global regular expression are
      found left to right, each search starting where the previous match ended\<close>
  "extractDigits (a # b # c # d # rest) =
     (if isDigit a \<and> isDigit b \<and> isDigit c \<and> isDigit d
      then [a, b, c, d] # extractDigits rest
      else extractDigits (b # c # d # rest))"
| "extractDigits _ = []"

definition exactMatch :: "string option \<Rightarrow> account \<Rightarrow> bool" where
  \<comment> \<open>\<open>a.name.toLowerCase() === accountName?.toLowerCase()\<close>; with a null label the right
      side is \<open>undefined\<close>, which equals no string\<close>
  "exactMatch accountName a =
     (case accountName of None \<Rightarrow> False
      | Some l \<Rightarrow> toLowerCase (account.name a) = toLowerCase l)"

definition stripStarSpace :: "string \<Rightarrow> string" where
  \<comment> \<open>\<open>.replace(/[*\s]/g, '')\<close>\<close>
  "stripStarSpace s = filter (\<lambda>c. \<not> (c = CHR ''*'' \<or> isSpace c)) s"

definition partialMatch :: "string \<Rightarrow> account \<Rightarrow> bool" where
  "partialMatch accountName a =
     (includesStr (toLowerCase (account.name a)) (toLowerCase accountName) \<or>
      includesStr (toLowerCase accountName) (stripStarSpace (toLowerCase (account.name a))))"

fun digitFallback :: "account list \<Rightarrow> string list \<Rightarrow> account option" where
  \<comment> \<open>the \<open>for (const digits of smsDigits)\<close> loop of \<open>matchAccount\<close>\<close>
  "digitFallback accts [] = None"
| "digitFallback accts (digits # ds) =
     (case find (\<lambda>a. includesStr (account.name a) digits) accts of
        Some a \<Rightarrow> Some a
      | None \<Rightarrow> digitFallback accts ds)"

definition partialStage :: "account list \<Rightarrow> string option \<Rightarrow> account option" where
  \<comment> \<open>\<open>if (accountName) { account = actualAccounts.find(...) }\<close>: a null or empty label
      is falsy and skips the stage\<close>
  "partialStage accts accountName =
     (case accountName of
        None \<Rightarrow> None
      | Some l \<Rightarrow> if l = [] then None else find (partialMatch l) accts)"

definition matchAccount :: "account list \<Rightarrow> string option \<Rightarrow> string \<Rightarrow> account option" where
  \<comment> \<open>the first argument is the global \<open>actualAccounts\<close>\<close>
  "matchAccount accts accountName sms =
     (case find (exactMatch accountName) accts of
        Some a \<Rightarrow> Some a
      | None \<Rightarrow>
         (case partialStage accts accountName of
            Some a \<Rightarrow> Some a
          | None \<Rightarrow> digitFallback accts (extractDigits sms)))"

definition keepWordSpace :: "string \<Rightarrow> string" where
  \<comment> \<open>\<open>.replace(/[^\w\s]/g, '')\<close>\<close>
  "keepWordSpace s = filter (\<lambda>c. isWord c \<or> isSpace c) s"

definition matchCategory :: "category list \<Rightarrow> string option \<Rightarrow> category option" where
  \<comment> \<open>the first argument is the global \<open>actualCategories\<close>\<close>
  "matchCategory cats categoryName =
     (case categoryName of
        None \<Rightarrow> None
      | Some l \<Rightarrow>
          if l = [] then None
          else (let search = keepWordSpace (toLowerCase l)
                in case find (\<lambda>c. toLowerCase (category.name c) = toLowerCase l) cats of
                     Some c \<Rightarrow> Some c
                   | None \<Rightarrow>
                       find (\<lambda>c. let n = keepWordSpace (toLowerCase (category.name c))
                                 in includesStr n search \<or> includesStr search n) cats))"

section \<open>Errors, the world outside, the trace\<close>

datatype error =
    OllamaError nat string  \<comment> \<open>\<open>Ollama error <status>: <body>\<close>\<close>
  | AssembleFailed  \<comment> \<open>\<open>Failed to assemble model output from NDJSON stream\<close>\<close>
  | NoBraceFound  \<comment> \<open>\<open>No '{' found in model output\<close>\<close>
  | UnterminatedObject  \<comment> \<open>\<open>Unterminated JSON object in model output\<close>\<close>
  | JsonSyntaxError  \<comment> \<open>the SyntaxError thrown by \<open>JSON.parse\<close>\<close>
  | NotAnObject  \<comment> \<open>\<open>LLM output is not an object\<close>\<close>
  | BadField string  \<comment> \<open>\<open><field> must be number or null\<close>, \<open><field> must be string or null\<close>\<close>
  | NoActiveAccounts  \<comment> \<open>\<open>No active accounts found in Actual Budget\<close>\<close>
  | NoAccountMatch "string option" "string list"  \<comment> \<open>\<open>Could not match account ... Available: ...\<close>\<close>
  | Thrown string  \<comment> \<open>an error thrown by the file system, the ledger or the network\<close>

record response =
  ok :: bool
  status :: nat
  body :: string

text \<open>
  What the services outside answer during one request: each is called at most once in a
  request that runs alone. \<open>toText\<close> stands for the built-ins \<open>JSON.stringify\<close> and
  \<open>String\<close> on a content that is not a string.
\<close>

record world =
  mkdirResult :: "error option"
  initResult :: "error option"
  downloadBudgetResult :: "error option"
  getAccountsResult :: "error + account list"
  getCategoriesResult :: "error + category list"
  shutdownResult :: "error option"
  fetchResult :: "error + response"
  importTransactionsResult :: "error + string"
  todayISO :: string
  toText :: "json \<Rightarrow> string"
  IMPORT_NOTES_PREFIX :: string

record parsed =
  amount :: "jsnum option"
  description :: "string option"
  date :: "string option"
  account :: "string option"
  category :: "string option"

record tx =
  account :: string
  date :: string
  amount :: jsnum
  payee_name :: "string option"
  category :: "string option"
  notes' :: string
  imported_id :: string
  cleared :: bool

datatype event =
    EnsureDir | Init | DownloadBudget | GetAccounts | GetCategories | Shutdown
  | OllamaChat
  | MatchAccount "account list" "string option" string
  | MatchCategory "category list" "string option"
  | ImportTransactions string tx

section \<open>The model gateway\<close>

definition contentString :: "(json \<Rightarrow> string) \<Rightarrow> json \<Rightarrow> string" where
  \<comment> \<open>the three returns after \<open>const content = obj?.message?.content\<close>\<close>
  "contentString text obj =
     (case optMember (optMember (Some obj) ''message'') ''content'' of
        Some (JString s) \<Rightarrow> s
      | Some (JArray xs) \<Rightarrow> text (JArray xs)
      | Some (JObject ps) \<Rightarrow> text (JObject ps)
      | Some (JNumber n) \<Rightarrow> text (JNumber n)
      | Some (JBool b) \<Rightarrow> (if b then ''true'' else ''false'')
      | Some JNull \<Rightarrow> []
      | None \<Rightarrow> [])"

fun split :: "string \<Rightarrow> string \<Rightarrow> string list" where
  \<comment> \<open>\<open>body.split("\n")\<close>; the first argument is the line read so far\<close>
  "split line [] = [line]"
| "split line (c # cs) = (if c = CHR 0x0A then line # split [] cs else split (line @ [c]) cs)"

definition ndjsonLines :: "string \<Rightarrow> string list" where
  \<comment> \<open>\<open>body.split("\n").filter(Boolean)\<close>\<close>
  "ndjsonLines b = filter (\<lambda>l. l \<noteq> []) (split [] b)"

fun assemble :: "string \<Rightarrow> string list \<Rightarrow> string" where
  \<comment> \<open>the \<open>for (const line of lines)\<close> loop; the first argument is \<open>assembled\<close>\<close>
  "assemble assembled [] = assembled"
| "assemble assembled (line # rest) =
     (case JSON_parse line of
        None \<Rightarrow> assemble assembled rest
      | Some chunk \<Rightarrow>
          (let assembled' =
                 (case optMember (optMember (Some chunk) ''message'') ''content'' of
                    Some (JString part) \<Rightarrow> assembled @ part
                  | _ \<Rightarrow> assembled)
           in if optMember (Some chunk) ''done'' = Some (JBool True) then assembled'
              else assemble assembled' rest))"

definition ollamaChatText :: "world \<Rightarrow> error + string" where
  "ollamaChatText w =
     (case fetchResult w of
        Inl e \<Rightarrow> Inl e
      | Inr res \<Rightarrow>
          if \<not> ok res then Inl (OllamaError (status res) (body res))
          else (case JSON_parse (body res) of
                  Some obj \<Rightarrow> Inr (contentString (toText w) obj)
                | None \<Rightarrow>
                    (let assembled = assemble [] (ndjsonLines (body res))
                     in if assembled = [] then Inl AssembleFailed else Inr assembled)))"

section \<open>The response parser\<close>

fun splitAt :: "string \<Rightarrow> string \<Rightarrow> (string \<times> string) option" where
  \<comment> \<open>the text before and the text after the first occurrence of a marker\<close>
  "splitAt m [] = (if m = [] then Some ([], []) else None)"
| "splitAt m (c # cs) =
     (if prefix m (c # cs) then Some ([], drop (length m) (c # cs))
      else (case splitAt m cs of None \<Rightarrow> None | Some (b, a) \<Rightarrow> Some (c # b, a)))"

definition stripCodeFences :: "string \<Rightarrow> string" where
  \<comment> \<open>\<open>s.match(/```(?:json)?\s*([\s\S]*?)\s*```/i)\<close>: the match starts at the first fence;
      after it an optional \<open>json\<close> and whitespace are skipped, and the group runs up to
      the whitespace before the next fence; without a next fence nothing matches\<close>
  "stripCodeFences s =
     (case splitAt ''```'' s of
        None \<Rightarrow> s
      | Some (_, r) \<Rightarrow>
          (let r1 = (if toLowerCase (take 4 r) = ''json'' then drop 4 r else r);
               r2 = dropWhile isSpace r1
           in case splitAt ''```'' r2 of
                None \<Rightarrow> s
              | Some (g, _) \<Rightarrow> rev (dropWhile isSpace (rev g))))"

fun scanBraces :: "int \<Rightarrow> string \<Rightarrow> string \<Rightarrow> string option" where
  \<comment> \<open>the \<open>for\<close> loop of \<open>extractFirstJsonObjectString\<close>: the depth so far, the characters
      passed since \<open>start\<close>, the characters to come\<close>
  "scanBraces depth seen [] = None"
| "scanBraces depth seen (ch # cs) =
     (let depth' = (if ch = CHR ''{'' then depth + 1 else if ch = CHR ''}'' then depth - 1 else depth)
      in if depth' = 0 then Some (seen @ [ch]) else scanBraces depth' (seen @ [ch]) cs)"

definition extractFirstJsonObjectString :: "string \<Rightarrow> error + string" where
  "extractFirstJsonObjectString s =
     (case dropWhile (\<lambda>c. c \<noteq> CHR ''{'') s of
        [] \<Rightarrow> Inl NoBraceFound
      | t \<Rightarrow> (case scanBraces 0 [] t of None \<Rightarrow> Inl UnterminatedObject | Some obj \<Rightarrow> Inr obj))"

definition parseModelJsonFromText :: "string \<Rightarrow> error + json" where
  "parseModelJsonFromText text =
     (let stripped = trim (stripCodeFences text)
      in case JSON_parse stripped of
           Some v \<Rightarrow> Inr v
         | None \<Rightarrow>
             (case extractFirstJsonObjectString stripped of
                Inl e \<Rightarrow> Inl e
              | Inr objStr \<Rightarrow>
                  (case JSON_parse objStr of Some v \<Rightarrow> Inr v | None \<Rightarrow> Inl JsonSyntaxError)))"

definition ollamaParse :: "world \<Rightarrow> error + json" where
  \<comment> \<open>the prompt is built and sent; what comes back is the world's answer\<close>
  "ollamaParse w =
     (case ollamaChatText w of Inl e \<Rightarrow> Inl e | Inr contentText \<Rightarrow> parseModelJsonFromText contentText)"

section \<open>The validator\<close>

definition stringOrNull :: "string \<Rightarrow> json option \<Rightarrow> error + string option" where
  "stringOrNull field v =
     (case v of
        Some JNull \<Rightarrow> Inr None
      | Some (JString s) \<Rightarrow> Inr (Some s)
      | _ \<Rightarrow> Inl (BadField field))"

definition validateParsed :: "json \<Rightarrow> error + parsed" where
  "validateParsed p =
     (case p of
        JNull \<Rightarrow> Inl NotAnObject
      | JBool _ \<Rightarrow> Inl NotAnObject
      | JNumber _ \<Rightarrow> Inl NotAnObject
      | JString _ \<Rightarrow> Inl NotAnObject
      | _ \<Rightarrow>
        (case (case member p ''amount'' of
                 Some JNull \<Rightarrow> Inr None
               | Some (JNumber n) \<Rightarrow> Inr (Some n)
               | _ \<Rightarrow> Inl (BadField ''amount'')) of
           Inl e \<Rightarrow> Inl e
         | Inr amount' \<Rightarrow>
        (case stringOrNull ''description'' (member p ''description'') of
           Inl e \<Rightarrow> Inl e
         | Inr description' \<Rightarrow>
        (case stringOrNull ''date'' (member p ''date'') of
           Inl e \<Rightarrow> Inl e
         | Inr date' \<Rightarrow>
        (case stringOrNull ''account'' (member p ''account'') of
           Inl e \<Rightarrow> Inl e
         | Inr account' \<Rightarrow>
        (case stringOrNull ''category'' (member p ''category'') of
           Inl e \<Rightarrow> Inl e
         | Inr category' \<Rightarrow>
             Inr \<lparr>parsed.amount = amount', parsed.description = description',
                  parsed.date = date', parsed.account = account',
                  parsed.category = category'\<rparr>))))))"

section \<open>The catalog cache\<close>

definition initialCache :: cache where
  \<comment> \<open>\<open>let actualReady = false; let actualAccounts = []; let actualCategories = [];\<close>\<close>
  "initialCache = \<lparr>actualReady = False, actualAccounts = [], actualCategories = []\<rparr>"

definition tryInit :: "world \<Rightarrow> cache \<Rightarrow> (error + unit) \<times> cache \<times> event list" where
  \<comment> \<open>the \<open>try\<close> block of \<open>ensureActualReady\<close>\<close>
  "tryInit w st =
     (case initResult w of
        Some e \<Rightarrow> (Inl e, st, [Init])
      | None \<Rightarrow>
     (case downloadBudgetResult w of
        Some e \<Rightarrow> (Inl e, st, [Init, DownloadBudget])
      | None \<Rightarrow>
     (case getAccountsResult w of
        Inl e \<Rightarrow> (Inl e, st, [Init, DownloadBudget, GetAccounts])
      | Inr accounts \<Rightarrow>
          (let st1 = st\<lparr>actualAccounts := filter (\<lambda>a. \<not> closed a) accounts\<rparr>
           in if length (actualAccounts st1) = 0
              then (Inl NoActiveAccounts, st1, [Init, DownloadBudget, GetAccounts])
              else (case getCategoriesResult w of
                      Inl e \<Rightarrow> (Inl e, st1, [Init, DownloadBudget, GetAccounts, GetCategories])
                    | Inr categories \<Rightarrow>
                        (Inr (),
                         st1\<lparr>actualCategories :=
                                filter (\<lambda>c. \<not> hidden c \<and> category.name c \<noteq> []) categories,
                              actualReady := True\<rparr>,
                         [Init, DownloadBudget, GetAccounts, GetCategories]))))))"

definition ensureActualReady :: "world \<Rightarrow> cache \<Rightarrow> (error + unit) \<times> cache \<times> event list" where
  "ensureActualReady w st =
     (if actualReady st \<and> 0 < length (actualAccounts st) then (Inr (), st, [])
      else (case mkdirResult w of
              Some e \<Rightarrow> (Inl e, st, [EnsureDir])
            | None \<Rightarrow>
                (case tryInit w st of
                   (Inr u, st', tr) \<Rightarrow> (Inr u, st', EnsureDir # tr)
                 | (Inl e, st', tr) \<Rightarrow>
                     (Inl e,
                      st'\<lparr>actualReady := False, actualAccounts := [], actualCategories := []\<rparr>,
                      EnsureDir # tr @ [Shutdown]))))"

section \<open>The transaction builder and the request handler\<close>

definition importIntoActual ::
  "world \<Rightarrow> cache \<Rightarrow> string \<Rightarrow> parsed \<Rightarrow> (error + string \<times> tx \<times> string) \<times> cache \<times> event list" where
  "importIntoActual w st sms p =
     (case ensureActualReady w st of
        (Inl e, st1, tr) \<Rightarrow> (Inl e, st1, tr)
      | (Inr _, st1, tr) \<Rightarrow>
          (let accountName = parsed.account p;
               categoryName = parsed.category p;
               tr1 = tr @ [MatchAccount (actualAccounts st1) accountName sms]
           in case matchAccount (actualAccounts st1) accountName sms of
                None \<Rightarrow>
                  (Inl (NoAccountMatch accountName (map account.name (actualAccounts st1))), st1, tr1)
              | Some a \<Rightarrow>
                  (let c = matchCategory (actualCategories st1) categoryName;
                       tr2 = tr1 @ [MatchCategory (actualCategories st1) categoryName];
                       categoryId = (case c of None \<Rightarrow> None
                                     | Some c' \<Rightarrow> if category.id' c' = [] then None
                                                  else Some (category.id' c'));
                       finalDate = (case parsed.date p of
                                      None \<Rightarrow> todayISO w
                                    | Some d \<Rightarrow> if 10 \<le> length d then d else todayISO w);
                       amountInt = toMinorUnits (case parsed.amount p of None \<Rightarrow> Finite 0 | Some x \<Rightarrow> x);
                       t = \<lparr>tx.account = account.id' a,
                            tx.date = finalDate,
                            tx.amount = amountInt,
                            tx.payee_name = (case parsed.description p of
                                               None \<Rightarrow> None
                                             | Some d \<Rightarrow> if d = [] then None else Some d),
                            tx.category = categoryId,
                            tx.notes' = trim (IMPORT_NOTES_PREFIX w @ '': '' @ orEmpty (parsed.description p)),
                            tx.imported_id = ''sms:'' @ idKey sms finalDate amountInt (parsed.description p),
                            tx.cleared = False\<rparr>;
                       tr3 = tr2 @ [ImportTransactions (account.id' a) t]
                   in case importTransactionsResult w of
                        Inl e \<Rightarrow> (Inl e, st1, tr3)
                      | Inr result \<Rightarrow> (Inr (finalDate, t, result), st1, tr3))))"

datatype reply =
    BadRequest  \<comment> \<open>status 400, \<open>missing sms string\<close>\<close>
  | Ignored parsed  \<comment> \<open>\<open>{ok: true, ignored: true, parsed}\<close>\<close>
  | Imported parsed string tx string  \<comment> \<open>\<open>{ok: true, ignored: false, parsed, imported}\<close>\<close>
  | Failed error  \<comment> \<open>status 500 with the message of the error\<close>

definition ingest :: "world \<Rightarrow> cache \<Rightarrow> json option \<Rightarrow> reply \<times> cache \<times> event list" where
  \<comment> \<open>the handler of \<open>POST /ingest\<close> after authentication; the third argument is
      \<open>req.body?.sms\<close>\<close>
  "ingest w st sms =
     (case sms of
        Some (JString s) \<Rightarrow>
          if s = [] then (BadRequest, st, [])
          else (case ensureActualReady w st of
                  (Inl e, st1, tr) \<Rightarrow> (Failed e, st1, tr)
                | (Inr _, st1, tr) \<Rightarrow>
                    (case ollamaParse w of
                       Inl e \<Rightarrow> (Failed e, st1, tr @ [OllamaChat])
                     | Inr j \<Rightarrow>
                         (case validateParsed j of
                            Inl e \<Rightarrow> (Failed e, st1, tr @ [OllamaChat])
                          | Inr p \<Rightarrow>
                              if parsed.amount p = None then (Ignored p, st1, tr @ [OllamaChat])
                              else (case importIntoActual w st1 s p of
                                      (Inl e, st2, tr2) \<Rightarrow> (Failed e, st2, tr @ [OllamaChat] @ tr2)
                                    | (Inr (finalDate, t, result), st2, tr2) \<Rightarrow>
                                        (Imported p finalDate t result, st2, tr @ [OllamaChat] @ tr2)))))
      | _ \<Rightarrow> (BadRequest, st, []))"

definition acct :: "string \<Rightarrow> string \<Rightarrow> account" where
  \<comment> \<open>an open account, for the examples\<close>
  "acct i n = \<lparr>account.id' = i, name = n, closed = False\<rparr>"

subsection \<open>The states of the cache, and examples\<close>

definition cacheInv :: "cache \<Rightarrow> bool" where
  \<comment> \<open>Ready with accounts, or Uninitialized with nothing cached\<close>
  "cacheInv st = (if actualReady st then actualAccounts st \<noteq> []
                  else actualAccounts st = [] \<and> actualCategories st = [])"

text \<open>
  The states the cache can be in between requests that run one after the other: the
  initial one, and the one left by a request to \<open>/budget\<close> (which only calls
  \<open>ensureActualReady\<close>) or to \<open>/ingest\<close>, whatever the world answers. No request
  starts before the previous one has ended; requests that run concurrently are the
  subject of \<open>interleaved\<close> below.
\<close>

inductive oneAtATime :: "cache \<Rightarrow> bool" where
  start: "oneAtATime initialCache"
| budget: "oneAtATime st \<Longrightarrow> oneAtATime (fst (snd (ensureActualReady w st)))"
| request: "oneAtATime st \<Longrightarrow> oneAtATime (fst (snd (ingest w st sms)))"

definition jsonText :: "string \<Rightarrow> string" where
  \<comment> \<open>a text as a JSON string: quotes and backslashes escaped\<close>
  "jsonText s = quoted (concat (map (\<lambda>c. if c = CHR 0x22 \<or> c = CHR 0x5C then [CHR 0x5C, c] else [c]) s))"

definition fragment :: "string \<Rightarrow> bool \<Rightarrow> string" where
  \<comment> \<open>one answer of the inference service: a content and the completion flag\<close>
  "fragment content done =
     ''{'' @ quoted ''message'' @ '':{'' @ quoted ''content'' @ '':'' @ jsonText content @ ''},'' @
     quoted ''done'' @ '':'' @ (if done then ''true'' else ''false'') @ ''}''"

definition exampleWorld :: "string \<Rightarrow> world" where
  \<comment> \<open>a world where every service succeeds and the inference service answers \<open>b\<close>\<close>
  "exampleWorld b =
     \<lparr>mkdirResult = None, initResult = None, downloadBudgetResult = None,
      getAccountsResult = Inr [acct ''a1'' ''HSBC ****0001'', acct ''a2'' ''ICICI ****2979'',
                               \<lparr>account.id' = ''a9'', name = ''Old card'', closed = True\<rparr>],
      getCategoriesResult = Inr [\<lparr>category.id' = ''c1'', name = ''Groceries'', hidden = False\<rparr>],
      shutdownResult = None,
      fetchResult = Inr \<lparr>ok = True, status = 200, body = b\<rparr>,
      importTransactionsResult = Inr ''ok'',
      todayISO = ''2026-11-03'',
      toText = (\<lambda>_. []),
      IMPORT_NOTES_PREFIX = ''SMS''\<rparr>"

definition noMatchContent :: string where
  "noMatchContent =
     ''{'' @ quoted ''amount'' @ '':-500,'' @ quoted ''description'' @ '':'' @ quoted ''Amazon'' @ '','' @
     quoted ''date'' @ '':'' @ quoted ''2024-05-01'' @ '','' @ quoted ''account'' @ '':'' @ quoted ''Axis'' @ '','' @
     quoted ''category'' @ '':null}''"

definition noMatchParsed :: parsed where
  "noMatchParsed =
     \<lparr>parsed.amount = Some (Finite (- 500)), parsed.description = Some ''Amazon'',
      parsed.date = Some ''2024-05-01'', parsed.account = Some ''Axis'', parsed.category = None\<rparr>"

definition openAccounts :: "account list" where
  "openAccounts = [acct ''a1'' ''HSBC ****0001'', acct ''a2'' ''ICICI ****2979'']"

subsection \<open>Assembly and extraction as the specification words them, and examples\<close>

definition chunkContent :: "json \<Rightarrow> string" where
  \<comment> \<open>the content fragment of a chunk, empty when it has no string content\<close>
  "chunkContent chunk =
     (case optMember (optMember (Some chunk) ''message'') ''content'' of
        Some (JString part) \<Rightarrow> part
      | _ \<Rightarrow> [])"

definition chunkDone :: "json \<Rightarrow> bool" where
  \<comment> \<open>the completion flag of a chunk is true\<close>
  "chunkDone chunk = (optMember (Some chunk) ''done'' = Some (JBool True))"

definition assembleSpec :: "string list \<Rightarrow> string" where
  \<comment> \<open>specification: of the lines that parse, in arrival order, the contents up to and
      with the first one whose completion flag is true, concatenated\<close>
  "assembleSpec ls =
     (let chunks = List.map_filter JSON_parse ls;
          upto = takeWhile (\<lambda>c. \<not> chunkDone c) chunks @ take 1 (dropWhile (\<lambda>c. \<not> chunkDone c) chunks)
      in concat (map chunkContent upto))"

definition streamBody :: string where
  \<comment> \<open>three fragments, one a line, the last one empty with the completion flag\<close>
  "streamBody =
     fragment (''{'' @ quoted ''amount'') False @ [CHR 0x0A] @
     fragment '':100}'' False @ [CHR 0x0A] @
     fragment [] True @ [CHR 0x0A]"

definition braceDepth :: "string \<Rightarrow> int" where
  \<comment> \<open>opening braces minus closing braces\<close>
  "braceDepth u =
     int (length (filter (\<lambda>c. c = CHR ''{'') u)) - int (length (filter (\<lambda>c. c = CHR ''}'') u))"

definition neverBalances :: "string \<Rightarrow> bool" where
  \<comment> \<open>from the first opening brace on, the depth returns to zero at no position\<close>
  "neverBalances s =
     (let t = dropWhile (\<lambda>c. c \<noteq> CHR ''{'') s
      in list_all (\<lambda>n. braceDepth (take n t) \<noteq> 0) [1..<Suc (length t)])"

definition fiveKeyText :: string where
  "fiveKeyText =
     ''{'' @ quoted ''amount'' @ '':-500,'' @ quoted ''description'' @ '':'' @ quoted ''Amazon'' @ '','' @
     quoted ''date'' @ '':'' @ quoted ''2024-05-01'' @ '','' @
     quoted ''account'' @ '':'' @ quoted ''HSBC ****0001'' @ '','' @
     quoted ''category'' @ '':'' @ quoted ''Shopping'' @ ''}''"

definition fiveKeyObject :: json where
  "fiveKeyObject =
     JObject [(''amount'', JNumber (Finite (- 500))), (''description'', JString ''Amazon''),
              (''date'', JString ''2024-05-01''), (''account'', JString ''HSBC ****0001''),
              (''category'', JString ''Shopping'')]"

definition fencedText :: string where
  "fencedText = ''Here you go: ```json '' @ fiveKeyText @ '' ``` Thanks!''"

definition braceInString :: string where
  "braceInString = ''Result: {'' @ quoted ''description'' @ '':'' @ quoted ''a}b'' @ ''}''"

definition nullContent :: string where
  "nullContent =
     ''{'' @ quoted ''amount'' @ '':null,'' @ quoted ''description'' @ '':null,'' @
     quoted ''date'' @ '':null,'' @ quoted ''account'' @ '':null,'' @ quoted ''category'' @ '':null}''"

definition nullParsed :: parsed where
  "nullParsed =
     \<lparr>parsed.amount = None, parsed.description = None, parsed.date = None,
      parsed.account = None, parsed.category = None\<rparr>"

definition readyCache :: cache where
  "readyCache =
     \<lparr>actualReady = True, actualAccounts = openAccounts,
      actualCategories = [\<lparr>category.id' = ''c1'', name = ''Groceries'', hidden = False\<rparr>]\<rparr>"

subsection \<open>Requests that interleave\<close>

text \<open>
  A call of \<open>ensureActualReady\<close> is suspended at each \<open>await\<close> of a call to the file
  system or the ledger, and other requests run in between. A call is modelled by the point
  where it is suspended; resuming it runs the synchronous code up to the next \<open>await\<close>
  or to the return, on the cache as the other requests have left it.
\<close>

datatype pc =
    AtGuard  \<comment> \<open>called, the guard not yet evaluated\<close>
  | AwaitMkdir  \<comment> \<open>\<open>await ensureDirExists(...)\<close>\<close>
  | AwaitInit  \<comment> \<open>\<open>await init(...)\<close>\<close>
  | AwaitDownload  \<comment> \<open>\<open>await downloadBudget(...)\<close>\<close>
  | AwaitGetAccounts  \<comment> \<open>\<open>await getAccounts()\<close>\<close>
  | AwaitGetCategories  \<comment> \<open>\<open>await getCategories()\<close>\<close>
  | AwaitShutdown error  \<comment> \<open>\<open>await shutdown()\<close> in the \<open>catch\<close> block, with the error caught\<close>
  | Returned "error + unit"  \<comment> \<open>returned, or thrown the error\<close>

fun resume :: "world \<Rightarrow> pc \<Rightarrow> cache \<Rightarrow> pc \<times> cache" where
  "resume w AtGuard st =
     (if actualReady st \<and> 0 < length (actualAccounts st) then (Returned (Inr ()), st)
      else (AwaitMkdir, st))"
| "resume w AwaitMkdir st =
     (case mkdirResult w of Some e \<Rightarrow> (Returned (Inl e), st) | None \<Rightarrow> (AwaitInit, st))"
| "resume w AwaitInit st =
     (case initResult w of Some e \<Rightarrow> (AwaitShutdown e, st) | None \<Rightarrow> (AwaitDownload, st))"
| "resume w AwaitDownload st =
     (case downloadBudgetResult w of
        Some e \<Rightarrow> (AwaitShutdown e, st)
      | None \<Rightarrow> (AwaitGetAccounts, st))"
| "resume w AwaitGetAccounts st =
     (case getAccountsResult w of
        Inl e \<Rightarrow> (AwaitShutdown e, st)
      | Inr accounts \<Rightarrow>
          (let st1 = st\<lparr>actualAccounts := filter (\<lambda>a. \<not> closed a) accounts\<rparr>
           in if length (actualAccounts st1) = 0 then (AwaitShutdown NoActiveAccounts, st1)
              else (AwaitGetCategories, st1)))"
| "resume w AwaitGetCategories st =
     (case getCategoriesResult w of
        Inl e \<Rightarrow> (AwaitShutdown e, st)
      | Inr categories \<Rightarrow>
          (Returned (Inr ()),
           st\<lparr>actualCategories := filter (\<lambda>c. \<not> hidden c \<and> category.name c \<noteq> []) categories,
              actualReady := True\<rparr>))"
| "resume w (AwaitShutdown e) st =
     (Returned (Inl e), st\<lparr>actualReady := False, actualAccounts := [], actualCategories := []\<rparr>)"
| "resume w (Returned r) st = (Returned r, st)"

text \<open>
  The states of the cache and of the calls in flight when requests run concurrently: a new
  call may arrive at any time, and any call in flight may be resumed. A request to
  \<open>/ingest\<close> makes one call in the handler and one in \<open>importIntoActual\<close> and only
  reads the cache otherwise, so it counts as two calls.
\<close>

inductive interleaved :: "cache \<Rightarrow> (world \<times> pc) list \<Rightarrow> bool" where
  boot: "interleaved initialCache []"
| arrive: "interleaved st rs \<Longrightarrow> interleaved st (rs @ [(w, AtGuard)])"
| run: "interleaved st rs \<Longrightarrow> i < length rs \<Longrightarrow> rs ! i = (w, p) \<Longrightarrow> resume w p st = (p', st')
         \<Longrightarrow> interleaved st' (rs[i := (w, p')])"

text \<open>
  Running a schedule: the list names, step by step, the call that is resumed.
  \<open>runAlone\<close> resumes one call a number of times with nothing in between.
\<close>

fun runSchedule :: "nat list \<Rightarrow> cache \<times> (world \<times> pc) list \<Rightarrow> cache \<times> (world \<times> pc) list" where
  "runSchedule [] c = c"
| "runSchedule (i # sched) (st, rs) =
     (if i < length rs
      then (case rs ! i of (w, p) \<Rightarrow>
              (case resume w p st of (p', st') \<Rightarrow> runSchedule sched (st', rs[i := (w, p')])))
      else runSchedule sched (st, rs))"

fun runAlone :: "nat \<Rightarrow> world \<Rightarrow> pc \<times> cache \<Rightarrow> pc \<times> cache" where
  "runAlone 0 w c = c"
| "runAlone (Suc n) w (p, st) = runAlone n w (resume w p st)"

definition offlineWorld :: world where
  \<comment> \<open>the ledger cannot be reached: \<open>init\<close> throws\<close>
  "offlineWorld = (exampleWorld [])\<lparr>initResult := Some (Thrown ''offline'')\<rparr>"

text \<open>Two calls arrive at a cold cache; the second one cannot reach the ledger.\<close>

definition raceStart :: "cache \<times> (world \<times> pc) list" where
  "raceStart = (initialCache, [(exampleWorld [], AtGuard), (offlineWorld, AtGuard)])"

definition raceSchedule :: "nat list" where
  \<comment> \<open>the first call up to \<open>await getCategories()\<close>, the second call to its end, then the
      first call to its end\<close>
  "raceSchedule = [0, 0, 0, 0, 0, 1, 1, 1, 1, 0]"

subsection \<open>The substring stage as the specification words it\<close>

definition isPunct :: "char \<Rightarrow> bool" where
  \<comment> \<open>the ASCII punctuation characters\<close>
  "isPunct c = (c \<in> set (''!#$%&()*+,-./:;<=>?@[]^_`{|}~'' @ [CHR 0x22, CHR 0x27, CHR 0x5C]))"

definition stripPunctSpace :: "string \<Rightarrow> string" where
  "stripPunctSpace s = filter (\<lambda>c. \<not> (isPunct c \<or> isSpace c)) s"

definition substringStage_spec :: "string \<Rightarrow> account \<Rightarrow> bool" where
  \<comment> \<open>specification: the stripped catalog name contains the label, or the label contains
      the stripped catalog name, case-insensitively\<close>
  "substringStage_spec accountLabel a =
     (let stripped = stripPunctSpace (toLowerCase (account.name a));
          l = toLowerCase accountLabel
      in includesStr stripped l \<or> includesStr l stripped)"

subsection \<open>Digit extraction as the specification words it\<close>

function digitRuns :: "string \<Rightarrow> string list" where
  \<comment> \<open>the maximal runs of consecutive digits of a text, in order of appearance\<close>
  "digitRuns [] = []"
| "digitRuns (c # cs) =
     (if isDigit c then takeWhile isDigit (c # cs) # digitRuns (dropWhile isDigit cs)
      else digitRuns cs)"
  by pat_completeness auto
termination
  by (relation "measure length") (auto simp: length_dropWhile_le less_Suc_eq_le)

definition runsOfExactlyFour :: "string \<Rightarrow> string list" where
  \<comment> \<open>specification: every run of exactly four consecutive digits\<close>
  "runsOfExactlyFour s = filter (\<lambda>r. length r = 4) (digitRuns s)"

fun fourDigitWindows :: "string \<Rightarrow> string list" where
  \<comment> \<open>the other reading: every four consecutive digits, overlapping or not\<close>
  "fourDigitWindows (a # b # c # d # rest) =
     (if isDigit a \<and> isDigit b \<and> isDigit c \<and> isDigit d then [[a, b, c, d]] else [])
       @ fourDigitWindows (b # c # d # rest)"
| "fourDigitWindows _ = []"

fun chunks4 :: "string \<Rightarrow> string list" where
  \<comment> \<open>the successive blocks of four characters of a text; an incomplete last block is dropped\<close>
  "chunks4 (a # b # c # d # rest) = [a, b, c, d] # chunks4 rest"
| "chunks4 _ = []"

definition catalog3 :: "account list" where
  "catalog3 =
     [\<lparr>account.id' = ''a0'', name = ''HSBC Gold 1234'', closed = False\<rparr>,
      \<lparr>account.id' = ''a1'', name = ''hsbc'', closed = False\<rparr>,
      \<lparr>account.id' = ''a2'', name = ''ICICI ****2979'', closed = False\<rparr>]"

definition axisCatalog :: "account list" where
  \<comment> \<open>a name with a hyphen, and a name with four digits\<close>
  "axisCatalog = [acct ''a1'' ''Axis-Bank'', acct ''a2'' ''Card 1234'']"

section \<open>Properties of the conversion to minor units\<close>

lemma pow2_powi: "pow2 k = 2 powi k"
  by (simp add: pow2_def power_int_def inverse_eq_divide power_one_over)

lemma pow2_pos: "0 < pow2 k"
  by (simp add: pow2_powi)

lemma pow2_add: "pow2 (j + k) = pow2 j * pow2 k"
  by (simp add: pow2_powi power_int_add)

lemma pow2_mono: "j \<le> k \<Longrightarrow> pow2 j \<le> pow2 k"
  by (simp add: pow2_powi power_int_increasing)

lemma pow2_strict_mono: "j < k \<Longrightarrow> pow2 j < pow2 k"
  by (simp add: pow2_powi power_int_strict_increasing)

lemma pow2_less_iff: "pow2 j < pow2 k \<longleftrightarrow> j < k"
  using pow2_strict_mono [of j k] pow2_mono [of k j] by (cases "j < k") auto

lemma pow2_nat: "pow2 (int n) = 2 ^ n"
  by (simp add: pow2_def)

lemma bits_bounds: "0 < n \<Longrightarrow> 0 < bits n \<and> 2 ^ nat (bits n - 1) \<le> n \<and> n < 2 ^ nat (bits n)"
proof (induction n rule: bits.induct)
  case (1 n)
  show ?case
  proof (cases "n = 1")
    case True
    have "bits 1 = 1" by (simp add: bits.simps [of 1] bits.simps [of 0])
    with True show ?thesis by simp
  next
    case False
    with 1(2) have pos: "0 < n div 2" by simp
    with 1(1) 1(2) have IH: "0 < bits (n div 2)" "2 ^ nat (bits (n div 2) - 1) \<le> n div 2"
      "n div 2 < 2 ^ nat (bits (n div 2))" by simp_all
    from 1(2) have b: "bits n = bits (n div 2) + 1" by (simp add: bits.simps [of n])
    from IH(1) have e: "nat (bits (n div 2)) = Suc (nat (bits (n div 2) - 1))" by simp
    from IH(2) have "2 * 2 ^ nat (bits (n div 2) - 1) \<le> n" by simp
    then have l: "2 ^ nat (bits (n div 2)) \<le> n" by (subst e) simp
    from IH(3) have "n < 2 * 2 ^ nat (bits (n div 2))" by simp
    with l b IH(1) show ?thesis by (simp add: nat_add_distrib)
  qed
qed


lemma ilog2_bounds:
  assumes "0 < x"
  shows "pow2 (ilog2 x) \<le> x \<and> x < pow2 (ilog2 x + 1)"
proof -
  obtain n d where q: "quotient_of x = (n, d)" by (cases "quotient_of x")
  then have d: "0 < d" and x: "x = of_int n / of_int d"
    using quotient_of_denom_pos quotient_of_div by blast+
  with assms have n: "0 < n" by (simp add: zero_less_divide_iff)
  define bn bd where "bn = bits n" and "bd = bits d"
  from bits_bounds [OF n] have bn: "0 < bn" "2 ^ nat (bn - 1) \<le> n" "n < 2 ^ nat bn"
    by (simp_all add: bn_def)
  from bits_bounds [OF d] have bd: "0 < bd" "2 ^ nat (bd - 1) \<le> d" "d < 2 ^ nat bd"
    by (simp_all add: bd_def)
  have rn: "pow2 (bn - 1) \<le> of_int n" "of_int n < pow2 bn"
  proof -
    from bn(2) have "(of_int (2 ^ nat (bn - 1)) :: rat) \<le> of_int n" by (simp only: of_int_le_iff)
    moreover have "pow2 (bn - 1) = 2 ^ nat (bn - 1)" using bn(1) by (simp add: pow2_def)
    ultimately show "pow2 (bn - 1) \<le> of_int n" by simp
    from bn(3) have "(of_int n :: rat) < of_int (2 ^ nat bn)" by (simp only: of_int_less_iff)
    moreover have "pow2 bn = 2 ^ nat bn" using bn(1) by (simp add: pow2_def)
    ultimately show "of_int n < pow2 bn" by simp
  qed
  have rd: "pow2 (bd - 1) \<le> of_int d" "of_int d < pow2 bd"
  proof -
    from bd(2) have "(of_int (2 ^ nat (bd - 1)) :: rat) \<le> of_int d" by (simp only: of_int_le_iff)
    moreover have "pow2 (bd - 1) = 2 ^ nat (bd - 1)" using bd(1) by (simp add: pow2_def)
    ultimately show "pow2 (bd - 1) \<le> of_int d" by simp
    from bd(3) have "(of_int d :: rat) < of_int (2 ^ nat bd)" by (simp only: of_int_less_iff)
    moreover have "pow2 bd = 2 ^ nat bd" using bd(1) by (simp add: pow2_def)
    ultimately show "of_int d < pow2 bd" by simp
  qed
  have dpos: "(0::rat) < of_int d" using d by simp
  have lo: "pow2 (bn - bd - 1) < x"
  proof -
    have "pow2 (bn - bd - 1) * of_int d < pow2 (bn - bd - 1) * pow2 bd"
      using rd(2) pow2_pos by simp
    also have "\<dots> = pow2 (bn - 1)" by (simp add: pow2_add [symmetric])
    also have "\<dots> \<le> of_int n" by (rule rn(1))
    finally show ?thesis using dpos by (simp add: x pos_less_divide_eq)
  qed
  have hi: "x < pow2 (bn - bd + 1)"
  proof -
    have "of_int n < pow2 bn" by (rule rn(2))
    also have "\<dots> = pow2 (bn - bd + 1) * pow2 (bd - 1)" by (simp add: pow2_add [symmetric])
    also have "\<dots> \<le> pow2 (bn - bd + 1) * of_int d"
      using rd(1) pow2_pos [of "bn - bd + 1"] by simp
    finally show ?thesis using dpos by (simp add: x pos_divide_less_eq)
  qed
  have il: "ilog2 x = (if pow2 (bn - bd) \<le> x then bn - bd else bn - bd - 1)"
    by (simp add: ilog2_def q bn_def bd_def Let_def)
  show ?thesis
  proof (cases "pow2 (bn - bd) \<le> x")
    case True
    with il hi show ?thesis by simp
  next
    case False
    with il lo show ?thesis by simp
  qed
qed

lemma roundHalfEven_of_int: "roundHalfEven (of_int k) = k"
  by (simp add: roundHalfEven_def)

lemma roundHalfEven_near: "\<bar>of_int (roundHalfEven x) - x\<bar> \<le> 1 / 2"
proof -
  define f where "f = \<lfloor>x\<rfloor>"
  have f: "of_int f \<le> x" "x < of_int f + 1"
    unfolding f_def by linarith+
  consider "x - of_int f < 1 / 2" | "1 / 2 < x - of_int f" | "x - of_int f = 1 / 2"
    by linarith
  then show ?thesis
  proof cases
    case 1
    then have "roundHalfEven x = f" by (simp add: roundHalfEven_def f_def)
    with f 1 show ?thesis by simp
  next
    case 2
    then have "roundHalfEven x = f + 1" by (simp add: roundHalfEven_def f_def)
    with f 2 show ?thesis by simp
  next
    case 3
    then have "roundHalfEven x = f \<or> roundHalfEven x = f + 1"
      by (simp add: roundHalfEven_def f_def Let_def)
    with f 3 show ?thesis by auto
  qed
qed

lemma roundHalfEven_nonneg: "0 \<le> x \<Longrightarrow> 0 \<le> roundHalfEven x"
proof -
  assume "0 \<le> x"
  then have "0 \<le> \<lfloor>x\<rfloor>" by simp
  then show ?thesis by (simp add: roundHalfEven_def Let_def)
qed


lemma fl64_unfold:
  assumes "x \<noteq> 0"
  defines "q \<equiv> max (ilog2 \<bar>x\<bar> - 52) (- 1074)"
  defines "r \<equiv> of_int (roundHalfEven (\<bar>x\<bar> / pow2 q)) * pow2 q"
  shows "fl64 x = (if pow2 1024 \<le> r then (if x < 0 then NegInfinity else PosInfinity)
                   else Finite (if x < 0 then - r else r))"
    and "0 \<le> r" and "\<bar>r - \<bar>x\<bar>\<bar> \<le> pow2 (q - 1)"
proof -
  show "fl64 x = (if pow2 1024 \<le> r then (if x < 0 then NegInfinity else PosInfinity)
                   else Finite (if x < 0 then - r else r))"
    using assms(1) by (simp add: fl64_def Let_def q_def r_def)
  have "0 \<le> \<bar>x\<bar> / pow2 q" using pow2_pos [of q] by simp
  then have "0 \<le> roundHalfEven (\<bar>x\<bar> / pow2 q)" by (rule roundHalfEven_nonneg)
  then show "0 \<le> r" using pow2_pos [of q] by (simp add: r_def)
  have "\<bar>r - \<bar>x\<bar>\<bar> = \<bar>of_int (roundHalfEven (\<bar>x\<bar> / pow2 q)) - \<bar>x\<bar> / pow2 q\<bar> * pow2 q"
  proof -
    have "r - \<bar>x\<bar> = (of_int (roundHalfEven (\<bar>x\<bar> / pow2 q)) - \<bar>x\<bar> / pow2 q) * pow2 q"
      using pow2_pos [of q] by (simp add: r_def field_simps)
    then show ?thesis using pow2_pos [of q] by (simp add: abs_mult)
  qed
  also have "\<dots> \<le> (1 / 2) * pow2 q"
    using roundHalfEven_near [of "\<bar>x\<bar> / pow2 q"] pow2_pos [of q]
    by (intro mult_right_mono) simp_all
  also have "\<dots> = pow2 (q - 1)"
  proof -
    have "pow2 q = pow2 (q - 1) * pow2 1" by (simp add: pow2_add [symmetric])
    then show ?thesis by (simp add: pow2_def)
  qed
  finally show "\<bar>r - \<bar>x\<bar>\<bar> \<le> pow2 (q - 1)" .
qed

lemma fl64_sign:
  "(case fl64 x of Finite y \<Rightarrow> (0 \<le> x \<longrightarrow> 0 \<le> y) \<and> (x \<le> 0 \<longrightarrow> y \<le> 0)
    | PosInfinity \<Rightarrow> 0 < x | NegInfinity \<Rightarrow> x < 0)"
proof (cases "x = 0")
  case True
  then show ?thesis by (simp add: fl64_def)
next
  case False
  from fl64_unfold(1,2) [OF False] show ?thesis using False by (auto simp: Let_def)
qed

lemma fl64_error:
  assumes lo: "pow2 (- 1022) \<le> \<bar>x\<bar>" and hi: "\<bar>x\<bar> < pow2 1023"
  shows "\<exists>y. fl64 x = Finite y \<and> \<bar>y - x\<bar> \<le> \<bar>x\<bar> * pow2 (- 53)"
proof -
  from lo pow2_pos [of "- 1022"] have nz: "x \<noteq> 0" by auto
  then have pos: "0 < \<bar>x\<bar>" by simp
  define e where "e = ilog2 \<bar>x\<bar>"
  from ilog2_bounds [OF pos] have e: "pow2 e \<le> \<bar>x\<bar>" "\<bar>x\<bar> < pow2 (e + 1)"
    by (simp_all add: e_def)
  from lo e(2) have "pow2 (- 1022) < pow2 (e + 1)" by simp
  then have el: "- 1022 \<le> e" by (simp add: pow2_less_iff)
  from hi e(1) have "pow2 e < pow2 1023" by simp
  then have eh: "e < 1023" by (simp add: pow2_less_iff)
  define q where "q = max (ilog2 \<bar>x\<bar> - 52) (- 1074)"
  define r where "r = of_int (roundHalfEven (\<bar>x\<bar> / pow2 q)) * pow2 q"
  from el have q: "q = e - 52" by (simp add: q_def e_def)
  note u = fl64_unfold [OF nz, folded q_def, folded r_def]
  have "pow2 (q - 1) = pow2 e * pow2 (- 53)"
    by (simp add: q pow2_add [symmetric])
  also have "\<dots> \<le> \<bar>x\<bar> * pow2 (- 53)"
    using e(1) pow2_pos [of "- 53"] by simp
  finally have err: "\<bar>r - \<bar>x\<bar>\<bar> \<le> \<bar>x\<bar> * pow2 (- 53)"
    using u(3) by simp
  have "pow2 (- 53) \<le> 1" using pow2_mono [of "- 53" 0] by (simp add: pow2_def)
  then have "\<bar>x\<bar> * pow2 (- 53) \<le> \<bar>x\<bar>" using pos by simp
  with err have "r \<le> 2 * \<bar>x\<bar>" by linarith
  also have "\<dots> < 2 * pow2 1023" using hi by simp
  also have "\<dots> = pow2 1024"
  proof -
    have "pow2 1024 = pow2 1 * pow2 1023" by (simp add: pow2_add [symmetric])
    then show ?thesis by (simp add: pow2_def)
  qed
  finally have nov: "\<not> pow2 1024 \<le> r" by simp
  with u(1) have f: "fl64 x = Finite (if x < 0 then - r else r)" by simp
  have "\<bar>(if x < 0 then - r else r) - x\<bar> = \<bar>r - \<bar>x\<bar>\<bar>"
    by (cases "x < 0") auto
  with err f show ?thesis by simp
qed

lemma fl64_int:
  assumes "\<bar>k\<bar> < 2 ^ 53"
  shows "fl64 (of_int k) = Finite (of_int k)"
proof (cases "k = 0")
  case True
  then show ?thesis by (simp add: fl64_def)
next
  case False
  define x :: rat where "x = of_int k"
  from False have nz: "x \<noteq> 0" by (simp add: x_def)
  have ax: "\<bar>x\<bar> = of_int \<bar>k\<bar>" by (simp add: x_def)
  from False have "1 \<le> \<bar>k\<bar>" by simp
  then have one: "1 \<le> \<bar>x\<bar>" unfolding ax by (simp only: of_int_1_le_iff)
  from assms have "(of_int \<bar>k\<bar> :: rat) < of_int (2 ^ 53)" by (simp only: of_int_less_iff)
  then have lt: "\<bar>x\<bar> < pow2 53" by (simp add: ax pow2_def)
  define e where "e = ilog2 \<bar>x\<bar>"
  from one have pos: "0 < \<bar>x\<bar>" by simp
  from ilog2_bounds [OF pos] have e: "pow2 e \<le> \<bar>x\<bar>" "\<bar>x\<bar> < pow2 (e + 1)"
    by (simp_all add: e_def)
  from one e(2) have "pow2 0 < pow2 (e + 1)" by (simp add: pow2_def)
  then have e0: "0 \<le> e" by (simp add: pow2_less_iff)
  from lt e(1) have "pow2 e < pow2 53" by simp
  then have e53: "e < 53" by (simp add: pow2_less_iff)
  define q where "q = max (ilog2 \<bar>x\<bar> - 52) (- 1074)"
  define r where "r = of_int (roundHalfEven (\<bar>x\<bar> / pow2 q)) * pow2 q"
  from e0 have q: "q = e - 52" by (simp add: q_def e_def)
  with e53 have qle: "q \<le> 0" by simp
  note u = fl64_unfold [OF nz, folded q_def, folded r_def]
  have pq: "pow2 q = 1 / 2 ^ nat (- q)" using qle by (cases "q = 0") (simp_all add: pow2_def)
  have "\<bar>x\<bar> / pow2 q = of_int (\<bar>k\<bar> * 2 ^ nat (- q))"
    by (simp add: pq ax)
  then have "roundHalfEven (\<bar>x\<bar> / pow2 q) = \<bar>k\<bar> * 2 ^ nat (- q)"
    by (simp only: roundHalfEven_of_int)
  then have r: "r = \<bar>x\<bar>" by (simp add: r_def pq ax)
  from lt have "\<bar>x\<bar> < pow2 1024" using pow2_strict_mono [of 53 1024] by simp
  with u(1) r have "fl64 x = Finite (if x < 0 then - \<bar>x\<bar> else \<bar>x\<bar>)" by simp
  then show ?thesis by (simp add: x_def)
qed


lemma toMinorUnits_Finite:
  "fl64 (a * 100) = Finite p \<Longrightarrow> toMinorUnits (Finite a) = Finite (of_int \<lfloor>p + 1 / 2\<rfloor>)"
  by (simp add: toMinorUnits_def jsTimes_def mathRound_def)

lemma floor_int_half: "\<lfloor>of_int m + 1 / 2 :: rat\<rfloor> = m"
  by (rule floor_unique) simp_all

lemma toMinorUnits_int:
  assumes "\<bar>n\<bar> \<le> 2 ^ 46"
  shows "toMinorUnits (Finite (of_int n)) = Finite (of_int (100 * n))"
proof -
  from assms have "\<bar>n * 100\<bar> < 2 ^ 53" by simp
  then have "fl64 (of_int (n * 100)) = Finite (of_int (n * 100))" by (rule fl64_int)
  then have "fl64 (of_int n * 100) = Finite (of_int (n * 100))" by simp
  from toMinorUnits_Finite [OF this] have "toMinorUnits (Finite (of_int n)) =
      Finite (of_int \<lfloor>of_int (n * 100) + 1 / 2 :: rat\<rfloor>)" .
  then show ?thesis by (simp only: floor_int_half mult.commute)
qed

lemma toMinorUnits_thousandths:
  assumes k: "\<bar>k\<bar> \<le> 10 ^ 12"
  shows "\<exists>a r. fl64 (of_int k / 1000) = Finite a \<and> toMinorUnits (Finite a) = Finite (of_int r) \<and>
           \<bar>of_int r - of_int k / 10\<bar> \<le> (1 / 2 :: rat)"
proof (cases "k = 0")
  case True
  have "fl64 0 = Finite 0" by (simp add: fl64_def)
  moreover from this have "toMinorUnits (Finite 0) = Finite (of_int 0)"
    using toMinorUnits_Finite [of 0 0] floor_int_half [of 0] by simp
  ultimately show ?thesis using True by auto
next
  case False
  define d :: rat where "d = of_int k / 1000"
  have p53: "pow2 (- 53) = 1 / 9007199254740992" by (simp add: pow2_def)
  have tiny: "pow2 (- 1022) \<le> 1 / 2000"
  proof -
    have "pow2 (- 1022) \<le> pow2 (- 11)" by (rule pow2_mono) simp
    also have "\<dots> \<le> 1 / 2000" by (simp add: pow2_def)
    finally show ?thesis .
  qed
  have huge: "(1000000000000 :: rat) < pow2 1023"
  proof -
    have "(1000000000000 :: rat) < pow2 40" by (simp add: pow2_def)
    also have "\<dots> \<le> pow2 1023" by (rule pow2_mono) simp
    finally show ?thesis .
  qed
  from False have "1 \<le> \<bar>k\<bar>" by simp
  then have "(1 :: rat) \<le> of_int \<bar>k\<bar>" by (simp only: of_int_1_le_iff)
  then have dlo: "1 / 1000 \<le> \<bar>d\<bar>" by (simp add: d_def)
  from k have "(of_int \<bar>k\<bar> :: rat) \<le> of_int (10 ^ 12)" by (simp only: of_int_le_iff)
  then have dhi: "\<bar>d\<bar> \<le> 1000000000" by (simp add: d_def)
  from dlo tiny have "pow2 (- 1022) \<le> \<bar>d\<bar>" by simp
  moreover from dhi huge have "\<bar>d\<bar> < pow2 1023" by simp
  ultimately obtain a where a: "fl64 d = Finite a" "\<bar>a - d\<bar> \<le> \<bar>d\<bar> * pow2 (- 53)"
    using fl64_error by blast
  from a(2) dhi have ad: "\<bar>a - d\<bar> \<le> 1000000000 / 9007199254740992"
    unfolding p53 by simp
  from ad dlo have alo: "1 / 2000 \<le> \<bar>a\<bar>" by linarith
  from ad dhi have ahi: "\<bar>a\<bar> \<le> 2000000000" by linarith
  from alo tiny have "pow2 (- 1022) \<le> \<bar>a * 100\<bar>" by (simp add: abs_mult)
  moreover from ahi huge have "\<bar>a * 100\<bar> < pow2 1023" by (simp add: abs_mult)
  ultimately obtain p where p: "fl64 (a * 100) = Finite p"
    "\<bar>p - a * 100\<bar> \<le> \<bar>a * 100\<bar> * pow2 (- 53)"
    using fl64_error by blast
  from p(2) ahi have pa: "\<bar>p - a * 100\<bar> \<le> 200000000000 / 9007199254740992"
    unfolding p53 by (simp add: abs_mult)
  have "\<bar>p - d * 100\<bar> = \<bar>(p - a * 100) + (a - d) * 100\<bar>" by (simp add: algebra_simps)
  also have "\<dots> \<le> \<bar>p - a * 100\<bar> + \<bar>(a - d) * 100\<bar>" by (rule abs_triangle_ineq)
  also have "\<bar>(a - d) * 100\<bar> = \<bar>a - d\<bar> * 100" by (simp only: abs_mult abs_numeral)
  finally have "\<bar>p - d * 100\<bar> \<le> \<bar>p - a * 100\<bar> + \<bar>a - d\<bar> * 100" .
  with pa ad have "\<bar>p - d * 100\<bar> \<le> 300000000000 / 9007199254740992" by linarith
  then have "\<bar>p - d * 100\<bar> < 1 / 20" by linarith
  then have "10 * \<bar>p - d * 100\<bar> < 1 / 2" by simp
  then have "\<bar>10 * (p - d * 100)\<bar> < 1 / 2" by (simp only: abs_mult abs_numeral)
  moreover have "10 * p - of_int k = 10 * (p - d * 100)" by (simp add: d_def)
  ultimately have eps: "\<bar>10 * p - of_int k\<bar> < 1 / 2" by (simp only:)
  define r where "r = \<lfloor>p + 1 / 2\<rfloor>"
  have fl: "of_int r \<le> p + 1 / 2" "p + 1 / 2 < of_int r + 1"
    unfolding r_def by linarith+
  from eps have eps': "10 * p - of_int k < 1 / 2" "- (1 / 2) < 10 * p - of_int k"
    by (simp_all only: abs_less_iff) linarith+
  have "(of_int (10 * r - k) :: rat) = 10 * of_int r - of_int k" by simp
  with fl eps' have "(of_int (10 * r - k) :: rat) < 6" "(- 6 :: rat) < of_int (10 * r - k)"
    by linarith+
  then have "10 * r - k < 6" "- 6 < 10 * r - k"
    by (simp_all only: of_int_less_iff [where 'a = rat, symmetric] of_int_numeral of_int_minus)
  then have "\<bar>10 * r - k\<bar> \<le> 5" by simp
  then have "(of_int \<bar>10 * r - k\<bar> :: rat) \<le> of_int 5" by (simp only: of_int_le_iff)
  then have "\<bar>10 * of_int r - of_int k\<bar> \<le> (5 :: rat)" by simp
  moreover have "10 * of_int r - of_int k = 10 * (of_int r - of_int k / 10 :: rat)" by simp
  ultimately have "10 * \<bar>of_int r - of_int k / 10 :: rat\<bar> \<le> 5" by (simp only: abs_mult abs_numeral)
  then have near: "\<bar>of_int r - of_int k / 10\<bar> \<le> (1 / 2 :: rat)" by simp
  from toMinorUnits_Finite [OF p(1)] have "toMinorUnits (Finite a) = Finite (of_int r)"
    by (simp add: r_def)
  with a(1) near show ?thesis unfolding d_def by blast
qed

lemma toMinorUnits_sign:
  "(case toMinorUnits (Finite a) of
      Finite r \<Rightarrow> (0 \<le> a \<longrightarrow> 0 \<le> r) \<and> (a \<le> 0 \<longrightarrow> r \<le> 0)
    | PosInfinity \<Rightarrow> 0 < a | NegInfinity \<Rightarrow> a < 0)"
proof (cases "fl64 (a * 100)")
  case (Finite p)
  with fl64_sign [of "a * 100"] have s: "0 \<le> a \<longrightarrow> 0 \<le> p" "a \<le> 0 \<longrightarrow> p \<le> 0" by simp_all
  have "0 \<le> p \<Longrightarrow> (0 :: rat) \<le> of_int \<lfloor>p + 1 / 2\<rfloor>" by simp
  moreover have "p \<le> 0 \<Longrightarrow> (of_int \<lfloor>p + 1 / 2\<rfloor> :: rat) \<le> 0"
  proof -
    assume "p \<le> 0"
    then have "p + 1 / 2 < 1" by simp
    then have "\<lfloor>p + 1 / 2\<rfloor> < 1" by (simp only: floor_less_iff of_int_1)
    then show ?thesis by simp
  qed
  ultimately have "(0 \<le> a \<longrightarrow> (0 :: rat) \<le> of_int \<lfloor>p + 1 / 2\<rfloor>) \<and>
      (a \<le> 0 \<longrightarrow> (of_int \<lfloor>p + 1 / 2\<rfloor> :: rat) \<le> 0)"
    using s by blast
  then show ?thesis by (simp only: toMinorUnits_Finite [OF Finite] jsnum.case)
next
  case PosInfinity
  with fl64_sign [of "a * 100"] show ?thesis
    by (simp add: toMinorUnits_def jsTimes_def mathRound_def)
next
  case NegInfinity
  with fl64_sign [of "a * 100"] show ?thesis
    by (simp add: toMinorUnits_def jsTimes_def mathRound_def)
qed

text \<open>
  Claim C9. The amount in minor units is \<open>Math.round(amount * 100)\<close>: the integer
  nearest to the product, a tie going toward positive infinity, where the product is the
  double-precision product (rounded to the nearest double). For a whole amount up to
  \<open>2 ^ 46\<close> the result is exactly a hundred times the amount. For an amount read from
  a decimal numeral with at most three decimals and a magnitude up to \<open>10 ^ 9\<close> the
  result is an integer nearest to the exact decimal times 100. The sign of the amount is
  kept (a debit stays negative or becomes zero, a credit stays positive or becomes zero).
  The amount \<open>-500\<close> gives \<open>-50000\<close>, and \<open>19.995\<close> (whose double product is the tie
  \<open>1999.5\<close>) gives \<open>2000\<close>.
\<close>

theorem toMinorUnits_nearest:
  "(jsTimes x 100 = Finite p \<longrightarrow>
      toMinorUnits x = Finite (of_int \<lfloor>p + 1 / 2\<rfloor>) \<and>
      p - 1 / 2 < of_int \<lfloor>p + 1 / 2\<rfloor> \<and> of_int \<lfloor>p + 1 / 2\<rfloor> \<le> p + 1 / 2) \<and>
   (\<bar>n\<bar> \<le> 2 ^ 46 \<longrightarrow> toMinorUnits (Finite (of_int n)) = Finite (of_int (100 * n))) \<and>
   (\<bar>k\<bar> \<le> 10 ^ 12 \<longrightarrow>
      (\<exists>a r. fl64 (of_int k / 1000) = Finite a \<and> toMinorUnits (Finite a) = Finite (of_int r) \<and>
             \<bar>of_int r - of_int k / 10\<bar> \<le> (1 / 2 :: rat))) \<and>
   (case toMinorUnits (Finite b) of
      Finite r \<Rightarrow> (0 \<le> b \<longrightarrow> 0 \<le> r) \<and> (b \<le> 0 \<longrightarrow> r \<le> 0)
    | PosInfinity \<Rightarrow> 0 < b | NegInfinity \<Rightarrow> b < 0) \<and>
   toMinorUnits (Finite (- 500)) = Finite (- 50000) \<and>
   toMinorUnits (fl64 (19995 / 1000)) = Finite 2000"
proof (intro conjI impI)
  assume p: "jsTimes x 100 = Finite p"
  then show "toMinorUnits x = Finite (of_int \<lfloor>p + 1 / 2\<rfloor>)"
    by (simp add: toMinorUnits_def mathRound_def)
  show "p - 1 / 2 < of_int \<lfloor>p + 1 / 2\<rfloor>" by linarith
  show "of_int \<lfloor>p + 1 / 2\<rfloor> \<le> p + 1 / 2" by linarith
next
  assume "\<bar>n\<bar> \<le> 2 ^ 46"
  then show "toMinorUnits (Finite (of_int n)) = Finite (of_int (100 * n))"
    by (rule toMinorUnits_int)
next
  assume "\<bar>k\<bar> \<le> 10 ^ 12"
  then show "\<exists>a r. fl64 (of_int k / 1000) = Finite a \<and> toMinorUnits (Finite a) = Finite (of_int r) \<and>
             \<bar>of_int r - of_int k / 10\<bar> \<le> (1 / 2 :: rat)"
    by (rule toMinorUnits_thousandths)
next
  show "case toMinorUnits (Finite b) of
      Finite r \<Rightarrow> (0 \<le> b \<longrightarrow> 0 \<le> r) \<and> (b \<le> 0 \<longrightarrow> r \<le> 0)
    | PosInfinity \<Rightarrow> 0 < b | NegInfinity \<Rightarrow> b < 0"
    by (rule toMinorUnits_sign)
next
  show "toMinorUnits (Finite (- 500)) = Finite (- 50000)"
    using toMinorUnits_int [of "- 500"] by simp
next
  show "toMinorUnits (fl64 (19995 / 1000)) = Finite 2000"
    by code_simp
qed

theorem toMinorUnits_nearest_witness:
  "jsTimes (Finite (- 500)) 100 = Finite (- 50000) \<and>
   toMinorUnits (Finite (- 500)) = Finite (of_int \<lfloor>- 50000 + 1 / 2 :: rat\<rfloor>) \<and>
   \<bar>- 500 :: int\<bar> \<le> 2 ^ 46 \<and>
   toMinorUnits (Finite (of_int (- 500))) = Finite (of_int (100 * - 500)) \<and>
   \<bar>19995 :: int\<bar> \<le> 10 ^ 12 \<and>
   (\<exists>a r. fl64 (of_int 19995 / 1000) = Finite a \<and> toMinorUnits (Finite a) = Finite (of_int r) \<and>
          \<bar>of_int r - of_int 19995 / 10\<bar> \<le> (1 / 2 :: rat))"
proof -
  have "fl64 (of_int (- 50000)) = Finite (of_int (- 50000))"
    by (rule fl64_int) simp
  then have h1: "jsTimes (Finite (- 500)) 100 = Finite (- 50000)"
    by (simp add: jsTimes_def)
  have h2: "\<bar>- 500 :: int\<bar> \<le> 2 ^ 46" by simp
  have h3: "\<bar>19995 :: int\<bar> \<le> 10 ^ 12" by simp
  note t = toMinorUnits_nearest [of "Finite (- 500)" "- 50000" "- 500" 19995 "- 500"]
  from t h1 have c1: "toMinorUnits (Finite (- 500)) = Finite (of_int \<lfloor>- 50000 + 1 / 2 :: rat\<rfloor>)"
    by blast
  from t h2 have c2: "toMinorUnits (Finite (of_int (- 500))) = Finite (of_int (100 * - 500))"
    by blast
  from t h3 have c3: "\<exists>a r. fl64 (of_int 19995 / 1000) = Finite a \<and>
      toMinorUnits (Finite a) = Finite (of_int r) \<and>
      \<bar>of_int r - of_int 19995 / 10\<bar> \<le> (1 / 2 :: rat)"
    by blast
  show ?thesis
    by (intro conjI h1 h2 h3 c1 c2 c3)
qed

section \<open>Properties of the idempotency key\<close>

lemma length_hex32: "length (hex32 w) = 8"
  by (simp add: hex32_def)

lemma length_sha256: "length (sha256 s) = 64"
  by (simp add: sha256_def length_hex32 split: prod.splits)

lemma hexDigit_hex: "hexDigit w \<in> set ''0123456789abcdef''"
proof -
  have "w AND 0xF \<le> 0xF"
    by (rule word_and_le1)
  then have "unat (w AND 0xF) \<le> unat (0xF :: 32 word)"
    by (simp only: word_le_nat_alt)
  then have "unat (w AND 0xF) < 16" by simp
  then have "unat (w AND 0xF) < length ''0123456789abcdef''" by simp
  then show ?thesis unfolding hexDigit_def by (rule nth_mem)
qed

lemma hex32_hex: "set (hex32 w) \<subseteq> set ''0123456789abcdef''"
  unfolding hex32_def using hexDigit_hex by auto

lemma sha256_hex: "set (sha256 s) \<subseteq> set ''0123456789abcdef''"
proof -
  obtain a b c d e f g h where "sha256_words (utf8 s) = (a, b, c, d, e, f, g, h)"
    by (cases "sha256_words (utf8 s)") auto
  then have "set (sha256 s) = set (hex32 a) \<union> set (hex32 b) \<union> set (hex32 c) \<union> set (hex32 d)
      \<union> set (hex32 e) \<union> set (hex32 f) \<union> set (hex32 g) \<union> set (hex32 h)"
    by (simp add: sha256_def Un_assoc)
  also have "\<dots> \<subseteq> set ''0123456789abcdef''"
    by (intro Un_least hex32_hex)
  finally show ?thesis .
qed

lemma digitVal_nth: "0 \<le> d \<Longrightarrow> d < 10 \<Longrightarrow> digitVal (''0123456789'' ! nat d) = d"
proof -
  assume "0 \<le> d" "d < 10"
  then have "d = 0 \<or> d = 1 \<or> d = 2 \<or> d = 3 \<or> d = 4 \<or> d = 5 \<or> d = 6 \<or> d = 7 \<or> d = 8 \<or> d = 9"
    by arith
  then show ?thesis by (auto simp: digitVal_def)
qed

lemma decimal_value: "0 \<le> n \<Longrightarrow> foldl (\<lambda>a c. 10 * a + digitVal c) 0 (decimal n) = n"
proof (induction n rule: decimal.induct)
  case (1 n)
  show ?case
  proof (cases "n < 10")
    case True
    with 1(2) show ?thesis by (subst decimal.simps) (simp add: digitVal_nth)
  next
    case False
    with 1 have IH: "foldl (\<lambda>a c. 10 * a + digitVal c) 0 (decimal (n div 10)) = n div 10" by simp
    have "digitVal (''0123456789'' ! nat (n mod 10)) = n mod 10"
      by (rule digitVal_nth) simp_all
    with False IH show ?thesis by (subst decimal.simps) simp
  qed
qed

lemma decimal_inj: "0 \<le> n \<Longrightarrow> 0 \<le> m \<Longrightarrow> decimal n = decimal m \<Longrightarrow> n = m"
  by (metis decimal_value)

lemma decimal_digits: "0 \<le> n \<Longrightarrow> set (decimal n) \<subseteq> set ''0123456789''"
proof (induction n rule: decimal.induct)
  case (1 n)
  have d: "0 \<le> d \<Longrightarrow> d < 10 \<Longrightarrow> ''0123456789'' ! nat d \<in> set ''0123456789''" for d :: int
    by (rule nth_mem) simp
  show ?case
  proof (cases "n < 10")
    case True
    with 1(2) d [of n] show ?thesis by (subst decimal.simps) simp
  next
    case False
    with 1 have "set (decimal (n div 10)) \<subseteq> set ''0123456789''" by simp
    moreover have "''0123456789'' ! nat (n mod 10) \<in> set ''0123456789''" by (rule d) simp_all
    ultimately show ?thesis using False by (subst decimal.simps) simp
  qed
qed

lemma decimal_nonempty: "decimal n \<noteq> []"
  by (subst decimal.simps) simp

lemma decimal_small: "n < 10 \<Longrightarrow> decimal n = [''0123456789'' ! nat n]"
  by (subst decimal.simps) simp

lemma decimal_big: "\<not> n < 10 \<Longrightarrow> decimal n = decimal (n div 10) @ [''0123456789'' ! nat (n mod 10)]"
  by (subst decimal.simps) simp

lemma decimal_times10: "0 < s \<Longrightarrow> decimal (s * 10) = decimal s @ ''0''"
  using decimal_big [of "s * 10"] by simp

lemma decimal_shift: "0 < s \<Longrightarrow> decimal (s * 10 ^ j) = decimal s @ replicate j (CHR ''0'')"
proof (induction j)
  case 0
  show ?case by simp
next
  case (Suc j)
  have "0 < s * 10 ^ j" using Suc.prems by simp
  have eq: "s * 10 ^ Suc j = (s * 10 ^ j) * 10" by simp
  have "decimal (s * 10 ^ Suc j) = decimal (s * 10 ^ j) @ ''0''"
    unfolding eq using \<open>0 < s * 10 ^ j\<close> by (rule decimal_times10)
  with Suc show ?case by (simp add: replicate_append_same)
qed

lemma decimal_length_bounds:
  "0 < v \<Longrightarrow> 10 ^ (length (decimal v) - 1) \<le> v \<and> v < 10 ^ length (decimal v)"
proof (induction v rule: decimal.induct)
  case (1 n)
  show ?case
  proof (cases "n < 10")
    case True
    with 1(2) show ?thesis by (simp add: decimal_small)
  next
    case False
    then have pos: "0 < n div 10" by simp
    define L where "L = length (decimal (n div 10))"
    from 1(1) [OF False pos] have IH: "10 ^ (L - 1) \<le> n div 10" "n div 10 < 10 ^ L"
      by (simp_all add: L_def)
    have L1: "L = Suc (L - 1)" using decimal_nonempty [of "n div 10"] by (simp add: L_def)
    have len: "length (decimal n) = Suc L" using False by (simp add: decimal_big L_def)
    define a :: int where "a = 10 ^ (L - 1)"
    have b: "(10::int) ^ L = 10 * a" by (subst L1) (simp add: a_def)
    from IH have "a \<le> n div 10" "n div 10 < 10 * a" by (simp_all add: a_def b)
    then have "10 * a \<le> n" "n < 10 * (10 * a)" by arith+
    then show ?thesis by (simp add: len b)
  qed
qed

lemma decimal_length_unique:
  assumes "0 < x" "10 ^ (k - 1) \<le> x" "x < 10 ^ k" "1 \<le> k"
  shows "length (decimal x) = k"
proof -
  define d where "d = length (decimal x)"
  from decimal_length_bounds [OF assms(1)] have b: "10 ^ (d - 1) \<le> x" "x < 10 ^ d"
    by (simp_all add: d_def)
  have d1: "1 \<le> d" using decimal_nonempty [of x] by (simp add: d_def Suc_le_eq)
  have "\<not> d < k"
  proof
    assume "d < k"
    then have "d \<le> k - 1" by simp
    then have "(10::int) ^ d \<le> 10 ^ (k - 1)" by (simp add: power_increasing)
    with b assms show False by linarith
  qed
  moreover have "\<not> k < d"
  proof
    assume "k < d"
    then have "k \<le> d - 1" by simp
    then have "(10::int) ^ k \<le> 10 ^ (d - 1)" by (simp add: power_increasing)
    with b assms show False by linarith
  qed
  ultimately show ?thesis by (simp add: d_def)
qed

lemma decimal_length_pow10: "length (decimal (10 ^ k)) = Suc k"
  by (rule decimal_length_unique) simp_all

lemma div_pow10_bounds:
  assumes "0 < v" "j < length (decimal v)"
  shows "10 ^ (length (decimal v) - 1 - j) \<le> v div 10 ^ j"
    and "v div 10 ^ j < 10 ^ (length (decimal v) - j)"
proof -
  define d where "d = length (decimal v)"
  from decimal_length_bounds [OF assms(1)] have b: "10 ^ (d - 1) \<le> v" "v < 10 ^ d"
    by (simp_all add: d_def)
  have p: "(0::int) < 10 ^ j" by simp
  have "(10::int) ^ (d - 1) = 10 ^ (d - 1 - j) * 10 ^ j"
    using assms(2) by (simp add: power_add [symmetric] d_def)
  with b have "10 ^ (d - 1 - j) * 10 ^ j \<le> v" by simp
  then have "(10 ^ (d - 1 - j) * 10 ^ j) div 10 ^ j \<le> v div 10 ^ j"
    using p by (rule zdiv_mono1)
  then show "10 ^ (length (decimal v) - 1 - j) \<le> v div 10 ^ j"
    by (simp add: d_def)
  have e: "(10::int) ^ d = 10 ^ (d - j) * 10 ^ j"
    using assms(2) by (simp add: power_add [symmetric] d_def)
  have "v div 10 ^ j < 10 ^ (d - j)"
  proof (rule ccontr)
    assume "\<not> v div 10 ^ j < 10 ^ (d - j)"
    then have "10 ^ (d - j) \<le> v div 10 ^ j" by simp
    then have "10 ^ (d - j) * 10 ^ j \<le> (v div 10 ^ j) * 10 ^ j"
      using p by (simp add: mult_right_mono)
    also have "\<dots> \<le> v"
    proof -
      have "(v div 10 ^ j) * 10 ^ j + v mod 10 ^ j = v" by (rule div_mult_mod_eq)
      moreover have "0 \<le> v mod 10 ^ j" using p by simp
      ultimately show ?thesis by linarith
    qed
    finally show False using b e by simp
  qed
  then show "v div 10 ^ j < 10 ^ (length (decimal v) - j)" by (simp add: d_def)
qed


lemma candidate_sound:
  assumes v: "0 < v" and j: "j < length (decimal v)"
    and c: "candidate v (length (decimal v)) j = Some (s, n)"
  shows "0 < s \<and> n \<le> Suc (length (decimal v)) \<and> roundTrips (repValue s n) v"
proof -
  define d where "d = length (decimal v)"
  define p :: int where "p = 10 ^ j"
  define lo where "lo = v div p"
  define hi where "hi = lo + 1"
  define okLo where "okLo = roundTrips (lo * p) v"
  define okHi where "okHi = roundTrips (hi * p) v"
  define s0 where "s0 =
     (if okLo \<and> okHi
      then (if v - lo * p < hi * p - v then lo
            else if hi * p - v < v - lo * p then hi
            else if even lo then lo else hi)
      else if okLo then lo else hi)"
  have cd: "candidate v d j =
      (if okLo \<or> okHi
       then Some (if s0 = 10 ^ (d - j) then (10 ^ (d - j - 1), d + 1) else (s0, d))
       else None)"
    by (simp only: candidate_def Let_def p_def lo_def hi_def okLo_def okHi_def s0_def)
  from c have ok: "okLo \<or> okHi"
    and sn: "(s, n) = (if s0 = 10 ^ (d - j) then (10 ^ (d - j - 1), d + 1) else (s0, d))"
    unfolding d_def [symmetric] cd by (simp_all split: if_splits)
  from ok have s0: "s0 = lo \<or> s0 = hi" and rt: "roundTrips (s0 * p) v"
    by (auto simp: s0_def okLo_def okHi_def)
  from div_pow10_bounds [OF v j]
  have lob: "10 ^ (d - 1 - j) \<le> lo" "lo < 10 ^ (d - j)"
    by (simp_all add: lo_def p_def d_def)
  have jd: "j < d" using j by (simp add: d_def)
  have pw: "(0::int) < 10 ^ (d - 1 - j)" by simp
  show ?thesis
  proof (cases "s0 = 10 ^ (d - j)")
    case True
    with sn have s: "s = 10 ^ (d - j - 1)" and n: "n = d + 1" by simp_all
    have len: "length (decimal s) = d - j"
      using jd by (simp add: s decimal_length_pow10)
    have "repValue s n = s * 10 ^ (n - (d - j))"
      by (simp only: repValue_def len)
    also have "\<dots> = 10 ^ (d - j - 1) * 10 ^ (d + 1 - (d - j))"
      by (simp only: s n)
    also have "d + 1 - (d - j) = Suc j" using jd by simp
    also have "(10::int) ^ (d - j - 1) * 10 ^ Suc j = 10 ^ (Suc (d - j - 1)) * 10 ^ j" by simp
    also have "Suc (d - j - 1) = d - j" using jd by simp
    finally have "repValue s n = s0 * p" by (simp add: True p_def)
    with rt s n show ?thesis by (simp add: d_def)
  next
    case False
    with sn have s: "s = s0" and n: "n = d" by simp_all
    from s0 lob False have b: "10 ^ (d - 1 - j) \<le> s0" "s0 < 10 ^ (d - j)"
      by (auto simp: hi_def)
    have k: "d - j - 1 = d - 1 - j" by simp
    from pw b(1) have s0pos: "0 < s0" by linarith
    have len: "length (decimal s0) = d - j"
      using s0pos b jd by (intro decimal_length_unique) (simp_all add: k)
    have "repValue s n = s0 * 10 ^ (d - (d - j))"
      by (simp only: repValue_def len s n)
    also have "d - (d - j) = j" using jd by simp
    finally have "repValue s n = s0 * p" by (simp add: p_def)
    with rt s n s0pos show ?thesis by (simp add: d_def)
  qed
qed

lemma shortestDigits_sound:
  assumes v: "0 < v" and dbl: "roundTrips v v"
  shows "j < length (decimal v) \<Longrightarrow> shortestDigits v (length (decimal v)) j = (s, n) \<Longrightarrow>
         0 < s \<and> n \<le> Suc (length (decimal v)) \<and> roundTrips (repValue s n) v"
proof (induction j)
  case 0
  show ?case
  proof (cases "candidate v (length (decimal v)) 0")
    case None
    with 0 have "s = v" "n = length (decimal v)" by auto
    with v dbl show ?thesis by (simp add: repValue_def)
  next
    case (Some r)
    with 0 have "candidate v (length (decimal v)) 0 = Some (s, n)" by simp
    from candidate_sound [OF v 0(1) this] show ?thesis .
  qed
next
  case (Suc j)
  show ?case
  proof (cases "candidate v (length (decimal v)) (Suc j)")
    case None
    with Suc.prems have "shortestDigits v (length (decimal v)) j = (s, n)" by simp
    with Suc.IH Suc.prems(1) show ?thesis by simp
  next
    case (Some r)
    with Suc.prems have "candidate v (length (decimal v)) (Suc j) = Some (s, n)" by simp
    from candidate_sound [OF v Suc.prems(1) this] show ?thesis .
  qed
qed


lemma repValue_pos: "0 < s \<Longrightarrow> 0 < repValue s n"
  by (simp add: repValue_def)

lemma formatDigits_fixed: "0 < s \<Longrightarrow> n \<le> 21 \<Longrightarrow> formatDigits s n = decimal (repValue s n)"
  by (simp add: formatDigits_def repValue_def decimal_shift Let_def)

lemma formatDigits_exp:
  "21 < n \<Longrightarrow> formatDigits s n =
     (if length (decimal s) = 1 then decimal s else hd (decimal s) # CHR ''.'' # tl (decimal s))
       @ CHR ''e'' # CHR ''+'' # decimal (int n - 1)"
  by (simp add: formatDigits_def Let_def)

lemma decimal_chars:
  assumes "0 \<le> s"
  shows "CHR ''e'' \<notin> set (decimal s)" and "CHR ''.'' \<notin> set (decimal s)"
    and "CHR ''-'' \<notin> set (decimal s)" and "CHR ''I'' \<notin> set (decimal s)"
  using decimal_digits [OF assms] by auto

lemma mantissa_chars:
  assumes "0 \<le> s"
  shows "CHR ''e'' \<notin> set (if length (decimal s) = 1 then decimal s
                              else hd (decimal s) # CHR ''.'' # tl (decimal s))"
proof -
  have "decimal s = hd (decimal s) # tl (decimal s)"
    using decimal_nonempty [of s] by simp
  then have "set (hd (decimal s) # CHR ''.'' # tl (decimal s)) = insert (CHR ''.'') (set (decimal s))"
    by (metis insert_commute list.simps(15))
  with decimal_chars(1) [OF assms] show ?thesis by simp
qed

lemma mantissa_strip:
  assumes "0 \<le> s"
  shows "filter (\<lambda>c. c \<noteq> CHR ''.'')
           (if length (decimal s) = 1 then decimal s
            else hd (decimal s) # CHR ''.'' # tl (decimal s)) = decimal s"
proof -
  have f: "filter (\<lambda>c. c \<noteq> CHR ''.'') (decimal s) = decimal s"
    using decimal_chars(2) [OF assms] by (simp add: filter_id_conv) metis
  have c: "decimal s = hd (decimal s) # tl (decimal s)"
    using decimal_nonempty [of s] by simp
  have "filter (\<lambda>c. c \<noteq> CHR ''.'') (hd (decimal s) # CHR ''.'' # tl (decimal s)) =
        filter (\<lambda>c. c \<noteq> CHR ''.'') (hd (decimal s) # tl (decimal s))"
    by simp
  also have "\<dots> = decimal s" using c f by simp
  finally show ?thesis using f by simp
qed

lemma split_at_char:
  assumes "e \<notin> set a" "e \<notin> set b" "a @ e # r = b @ e # r'"
  shows "a = b \<and> r = r'"
proof -
  have "takeWhile (\<lambda>c. c \<noteq> e) (a @ e # r) = a"
    using assms(1) by (subst takeWhile_append2) auto
  moreover have "takeWhile (\<lambda>c. c \<noteq> e) (b @ e # r') = b"
    using assms(2) by (subst takeWhile_append2) auto
  ultimately have "a = b" using assms(3) by simp
  with assms(3) show ?thesis by simp
qed

lemma formatDigits_value:
  assumes s: "0 < s" and s': "0 < s'" and eq: "formatDigits s n = formatDigits s' n'"
  shows "repValue s n = repValue s' n'"
proof -
  have has_e: "CHR ''e'' \<in> set (formatDigits t m)" if "21 < m" for t m
    using that by (simp add: formatDigits_exp)
  have no_e: "CHR ''e'' \<notin> set (formatDigits t m)" if "m \<le> 21" "0 < t" for t m
    using that decimal_chars(1) [of "repValue t m"] repValue_pos [of t m]
    by (simp add: formatDigits_fixed)
  consider "n \<le> 21" "n' \<le> 21" | "21 < n" "21 < n'" | "n \<le> 21" "21 < n'" | "21 < n" "n' \<le> 21"
    by linarith
  then show ?thesis
  proof cases
    case 1
    with s s' eq have "decimal (repValue s n) = decimal (repValue s' n')"
      by (simp add: formatDigits_fixed)
    moreover have "0 \<le> repValue s n" "0 \<le> repValue s' n'"
      using repValue_pos [OF s, of n] repValue_pos [OF s', of n'] by simp_all
    ultimately show ?thesis by (intro decimal_inj)
  next
    case 2
    let ?M = "\<lambda>t. if length (decimal t) = 1 then decimal t
                    else hd (decimal t) # CHR ''.'' # tl (decimal t)"
    from eq 2 have e: "?M s @ CHR ''e'' # (CHR ''+'' # decimal (int n - 1)) =
        ?M s' @ CHR ''e'' # (CHR ''+'' # decimal (int n' - 1))"
      by (simp only: formatDigits_exp)
    have "CHR ''e'' \<notin> set (?M s)" "CHR ''e'' \<notin> set (?M s')"
      using mantissa_chars [of s] mantissa_chars [of s'] s s' by simp_all
    from split_at_char [OF this e]
    have m: "?M s = ?M s'" and x: "decimal (int n - 1) = decimal (int n' - 1)" by simp_all
    from m have "filter (\<lambda>c. c \<noteq> CHR ''.'') (?M s) = filter (\<lambda>c. c \<noteq> CHR ''.'') (?M s')"
      by simp
    then have "decimal s = decimal s'"
      using mantissa_strip [of s] mantissa_strip [of s'] s s' by simp
    then have "s = s'" using s s' by (intro decimal_inj) simp_all
    moreover from x 2 have "int n - 1 = int n' - 1" by (intro decimal_inj) simp_all
    ultimately show ?thesis by simp
  next
    case 3
    with has_e [of n' s'] no_e [of n s] s eq show ?thesis by simp
  next
    case 4
    with has_e [of n s] no_e [of n' s'] s' eq show ?thesis by simp
  qed
qed

lemma formatDigits_head:
  assumes "0 < s"
  shows "formatDigits s n \<noteq> [] \<and> hd (formatDigits s n) \<in> set ''0123456789''"
proof -
  have ne: "decimal s \<noteq> []" by (rule decimal_nonempty)
  then have "hd (decimal s) \<in> set (decimal s)" by simp
  with decimal_digits [of s] assms have h: "hd (decimal s) \<in> set ''0123456789''" by auto
  show ?thesis
  proof (cases "n \<le> 21")
    case True
    with ne h show ?thesis by (simp add: formatDigits_def Let_def)
  next
    case False
    with ne h show ?thesis by (simp add: formatDigits_def Let_def)
  qed
qed

lemma formatDigits_not_zero:
  assumes "0 < s"
  shows "formatDigits s n \<noteq> ''0''"
proof (cases "n \<le> 21")
  case True
  show ?thesis
  proof
    assume "formatDigits s n = ''0''"
    with True assms have "decimal (repValue s n) = decimal 0"
      by (simp add: formatDigits_fixed decimal_small)
    then have "repValue s n = 0"
      using repValue_pos [OF assms, of n] by (intro decimal_inj) simp_all
    with repValue_pos [OF assms, of n] show False by simp
  qed
next
  case False
  then have "CHR ''e'' \<in> set (formatDigits s n)" by (simp add: formatDigits_exp)
  then show ?thesis by auto
qed

lemma positiveToString_rep:
  assumes v: "0 < v" and dbl: "roundTrips v v"
  shows "\<exists>s n. 0 < s \<and> n \<le> Suc (length (decimal v)) \<and> roundTrips (repValue s n) v \<and>
           positiveToString v = formatDigits s n"
proof -
  obtain s n where sn: "shortestDigits v (length (decimal v)) (length (decimal v) - 1) = (s, n)"
    by (cases "shortestDigits v (length (decimal v)) (length (decimal v) - 1)")
  have "length (decimal v) - 1 < length (decimal v)"
    using decimal_nonempty [of v] by simp
  from shortestDigits_sound [OF v dbl this sn] sn show ?thesis
    by (auto simp: positiveToString_def Let_def)
qed

lemma fl64_minus:
  "fl64 (- x) = (case fl64 x of Finite y \<Rightarrow> Finite (- y)
                 | PosInfinity \<Rightarrow> NegInfinity | NegInfinity \<Rightarrow> PosInfinity)"
  by (auto simp: fl64_def Let_def)

lemma roundTrips_minus: "roundTrips v v \<Longrightarrow> roundTrips (- v) (- v)"
  by (simp add: roundTrips_def fl64_minus)

lemma roundTrips_fun: "roundTrips m v \<Longrightarrow> roundTrips m v' \<Longrightarrow> v = v'"
  by (simp add: roundTrips_def)

lemma positiveToString_inj:
  assumes "0 < v" "roundTrips v v" "0 < v'" "roundTrips v' v'"
    and eq: "positiveToString v = positiveToString v'"
  shows "v = v'"
proof -
  from positiveToString_rep [OF assms(1,2)] obtain s n
    where a: "0 < s" "roundTrips (repValue s n) v" "positiveToString v = formatDigits s n" by blast
  from positiveToString_rep [OF assms(3,4)] obtain s' n'
    where b: "0 < s'" "roundTrips (repValue s' n') v'" "positiveToString v' = formatDigits s' n'"
    by blast
  from eq a(3) b(3) have "formatDigits s n = formatDigits s' n'" by simp
  from formatDigits_value [OF a(1) b(1) this] a(2) b(2) show ?thesis
    by (auto intro: roundTrips_fun)
qed

lemma numberToString_inj:
  assumes d: "roundTrips v v" and d': "roundTrips v' v'"
    and eq: "numberToString v = numberToString v'"
  shows "v = v'"
proof -
  have pos: "positiveToString t \<noteq> ''0'' \<and> positiveToString t \<noteq> [] \<and>
      hd (positiveToString t) \<noteq> CHR ''-''" if "0 < t" "roundTrips t t" for t
  proof -
    from positiveToString_rep [OF that] obtain s n
      where a: "0 < s" "positiveToString t = formatDigits s n" by blast
    from formatDigits_head [OF a(1), of n] formatDigits_not_zero [OF a(1), of n] a(2)
    show ?thesis by auto
  qed
  consider "v = 0" | "0 < v" | "v < 0" by linarith
  then show ?thesis
  proof cases
    case 1
    consider "v' = 0" | "0 < v'" | "v' < 0" by linarith
    then show ?thesis
    proof cases
      case 1
      with \<open>v = 0\<close> show ?thesis by simp
    next
      case 2
      with \<open>v = 0\<close> eq pos [OF 2 d'] show ?thesis by (simp add: numberToString_def)
    next
      case 3
      with \<open>v = 0\<close> eq show ?thesis by (simp add: numberToString_def)
    qed
  next
    case 2
    consider "v' = 0" | "0 < v'" | "v' < 0" by linarith
    then show ?thesis
    proof cases
      case 1
      with 2 eq pos [OF 2 d] show ?thesis by (simp add: numberToString_def)
    next
      case p: 2
      with 2 eq have "positiveToString v = positiveToString v'" by (simp add: numberToString_def)
      from positiveToString_inj [OF 2 d p d' this] show ?thesis .
    next
      case 3
      with 2 eq have "positiveToString v = CHR ''-'' # positiveToString (- v')"
        by (simp add: numberToString_def)
      with pos [OF 2 d] show ?thesis by simp
    qed
  next
    case 3
    then have nv: "0 < - v" by simp
    consider "v' = 0" | "0 < v'" | "v' < 0" by linarith
    then show ?thesis
    proof cases
      case 1
      with 3 eq show ?thesis by (simp add: numberToString_def)
    next
      case 2
      with 3 eq have "CHR ''-'' # positiveToString (- v) = positiveToString v'"
        by (simp add: numberToString_def)
      with pos [OF 2 d'] show ?thesis by (metis list.sel(1))
    next
      case n: 3
      then have nv': "0 < - v'" by simp
      from 3 n eq have "positiveToString (- v) = positiveToString (- v')"
        by (simp add: numberToString_def)
      from positiveToString_inj [OF nv roundTrips_minus [OF d] nv' roundTrips_minus [OF d'] this]
      show ?thesis by simp
    qed
  qed
qed


lemma roundHalfEven_div:
  assumes "0 < b"
  shows "roundHalfEven (of_int a / of_int b) = roundDiv a b"
proof -
  define x :: rat where "x = of_int a / of_int b"
  have f: "\<lfloor>x\<rfloor> = a div b" by (simp add: x_def floor_divide_of_int_eq)
  have "a = (a div b) * b + a mod b" by simp
  then have "(of_int a :: rat) = of_int ((a div b) * b + a mod b)" by simp
  then have "(of_int a :: rat) = of_int (a div b) * of_int b + of_int (a mod b)"
    by (simp only: of_int_add of_int_mult)
  then have d: "x - of_int (a div b) = of_int (a mod b) / of_int b"
    using assms by (simp add: x_def field_simps)
  have lt: "(of_int (a mod b) / of_int b < (1 / 2 :: rat)) \<longleftrightarrow> 2 * (a mod b) < b"
  proof -
    have "(of_int (a mod b) / of_int b < (1 / 2 :: rat)) \<longleftrightarrow>
          (of_int (2 * (a mod b)) :: rat) < of_int b"
      using assms by (simp add: field_simps)
    also have "\<dots> \<longleftrightarrow> 2 * (a mod b) < b" by (simp only: of_int_less_iff)
    finally show ?thesis .
  qed
  have gt: "((1 / 2 :: rat) < of_int (a mod b) / of_int b) \<longleftrightarrow> b < 2 * (a mod b)"
  proof -
    have "((1 / 2 :: rat) < of_int (a mod b) / of_int b) \<longleftrightarrow>
          (of_int b :: rat) < of_int (2 * (a mod b))"
      using assms by (simp add: field_simps)
    also have "\<dots> \<longleftrightarrow> b < 2 * (a mod b)" by (simp only: of_int_less_iff)
    finally show ?thesis .
  qed
  have "roundHalfEven x = roundDiv a b"
    by (simp only: roundHalfEven_def roundDiv_def Let_def f d lt gt)
  then show ?thesis by (simp only: x_def)
qed

lemma ilog2_unique:
  assumes "0 < x" "pow2 e \<le> x" "x < pow2 (e + 1)"
  shows "ilog2 x = e"
proof -
  from ilog2_bounds [OF assms(1)] have b: "pow2 (ilog2 x) \<le> x" "x < pow2 (ilog2 x + 1)"
    by simp_all
  from b(1) assms(3) have "pow2 (ilog2 x) < pow2 (e + 1)" by simp
  then have 1: "ilog2 x < e + 1" by (simp only: pow2_less_iff)
  from assms(2) b(2) have "pow2 e < pow2 (ilog2 x + 1)" by simp
  then have 2: "e < ilog2 x + 1" by (simp only: pow2_less_iff)
  from 1 2 show ?thesis by simp
qed

lemma fl64_of_int_big:
  assumes big: "2 ^ 53 \<le> m"
  shows "fl64 (of_int m) =
     (if 2 ^ 1024 \<le> fl64int m then PosInfinity else Finite (of_int (fl64int m)))"
proof -
  define x :: rat where "x = of_int m"
  have "(0::int) < 2 ^ 53" by simp
  with big have mpos: "0 < m" by linarith
  then have xpos: "0 < x" by (simp add: x_def)
  define b where "b = bits m"
  from bits_bounds [OF mpos] have bb: "0 < b" "2 ^ nat (b - 1) \<le> m" "m < 2 ^ nat b"
    by (simp_all add: b_def)
  from big bb(3) have "(2::int) ^ 53 < 2 ^ nat b" by simp
  then have "53 < nat b" by (simp only: power_strict_increasing_iff)
  then have b54: "54 \<le> b" by simp
  have lo: "pow2 (b - 1) \<le> x"
  proof -
    from bb(2) have "(of_int (2 ^ nat (b - 1)) :: rat) \<le> of_int m" by (simp only: of_int_le_iff)
    moreover have "pow2 (b - 1) = 2 ^ nat (b - 1)" using bb(1) by (simp add: pow2_def)
    ultimately show ?thesis by (simp add: x_def)
  qed
  have hi: "x < pow2 (b - 1 + 1)"
  proof -
    from bb(3) have "(of_int m :: rat) < of_int (2 ^ nat b)" by (simp only: of_int_less_iff)
    moreover have "pow2 b = 2 ^ nat b" using bb(1) by (simp add: pow2_def)
    ultimately show ?thesis by (simp add: x_def)
  qed
  from ilog2_unique [OF xpos lo hi] have il: "ilog2 x = b - 1" .
  define q where "q = nat (b - 53)"
  have qq: "max (ilog2 \<bar>x\<bar> - 52) (- 1074) = int q"
    using xpos b54 il by (simp add: q_def)
  have pq: "pow2 (int q) = of_int (2 ^ q)" by (simp add: pow2_nat)
  have nz: "x \<noteq> 0" using xpos by simp
  have ax: "\<bar>x\<bar> = of_int m" using xpos by (simp add: x_def)
  have rh: "roundHalfEven (\<bar>x\<bar> / pow2 (int q)) = roundDiv m (2 ^ q)"
    unfolding ax pq by (rule roundHalfEven_div) simp
  have r: "of_int (roundHalfEven (\<bar>x\<bar> / pow2 (int q))) * pow2 (int q) = (of_int (fl64int m) :: rat)"
  proof -
    have "of_int (roundHalfEven (\<bar>x\<bar> / pow2 (int q))) * pow2 (int q) =
          (of_int (roundDiv m (2 ^ q)) :: rat) * pow2 (int q)"
      by (simp only: rh)
    also have "\<dots> = (of_int (roundDiv m (2 ^ q)) :: rat) * of_int (2 ^ q)"
      by (simp only: pq)
    also have "\<dots> = of_int (roundDiv m (2 ^ q) * 2 ^ q)" by (simp only: of_int_mult)
    also have "roundDiv m (2 ^ q) * 2 ^ q = fl64int m"
      by (simp add: fl64int_def Let_def q_def b_def)
    finally show ?thesis .
  qed
  have p1024: "pow2 1024 = (of_int (2 ^ 1024) :: rat)" by (simp add: pow2_def)
  have cmp: "(pow2 1024 \<le> (of_int (fl64int m) :: rat)) \<longleftrightarrow> 2 ^ 1024 \<le> fl64int m"
    unfolding p1024 by (simp only: of_int_le_iff)
  from fl64_unfold(1) [OF nz] xpos show ?thesis
    unfolding qq r cmp by (simp add: x_def)
qed

lemma roundTrips_code [code]:
  "roundTrips m v =
     (if \<bar>m\<bar> < 2 ^ 53 then m = v
      else if 0 < m then fl64int m < 2 ^ 1024 \<and> fl64int m = v
      else fl64int (- m) < 2 ^ 1024 \<and> - fl64int (- m) = v)"
proof (cases "\<bar>m\<bar> < 2 ^ 53")
  case True
  then show ?thesis by (simp add: roundTrips_def fl64_int)
next
  case False
  show ?thesis
  proof (cases "0 < m")
    case True
    with False have "2 ^ 53 \<le> m" by simp
    from fl64_of_int_big [OF this] False True show ?thesis
      by (auto simp: roundTrips_def)
  next
    case neg: False
    with False have "2 ^ 53 \<le> - m" by simp
    from fl64_of_int_big [OF this] have
      "fl64 (of_int m) = (if 2 ^ 1024 \<le> fl64int (- m) then NegInfinity
                          else Finite (- of_int (fl64int (- m))))"
      using fl64_minus [of "of_int (- m)"] by (simp split: if_splits)
    with False neg show ?thesis
      by (auto simp: roundTrips_def)
  qed
qed

subsection \<open>Numbers below \<open>2 ^ 53\<close> print as their decimal numeral\<close>

lemma roundDiv_ge: "0 < b \<Longrightarrow> a div b \<le> roundDiv a b"
  by (simp add: roundDiv_def Let_def)

lemma fl64int_lower:
  assumes big: "2 ^ 53 \<le> m"
  shows "2 ^ 53 \<le> fl64int m"
proof -
  have "(0::int) < 2 ^ 53" by simp
  with big have mpos: "0 < m" by linarith
  define b where "b = bits m"
  from bits_bounds [OF mpos] have bb: "0 < b" "2 ^ nat (b - 1) \<le> m" "m < 2 ^ nat b"
    by (simp_all add: b_def)
  from big bb(3) have "(2::int) ^ 53 < 2 ^ nat b" by simp
  then have "53 < nat b" by (simp only: power_strict_increasing_iff)
  then have b54: "54 \<le> b" by simp
  define q where "q = nat (b - 53)"
  have q1: "1 \<le> q" using b54 by (simp add: q_def)
  have e: "nat (b - 1) = 52 + q" using b54 by (simp add: q_def)
  have p: "(0::int) < 2 ^ q" by simp
  have "(2::int) ^ 52 * 2 ^ q \<le> m" using bb(2) by (simp add: e power_add)
  then have "((2::int) ^ 52 * 2 ^ q) div 2 ^ q \<le> m div 2 ^ q" using p by (rule zdiv_mono1)
  then have "(2::int) ^ 52 \<le> m div 2 ^ q" by simp
  also have "\<dots> \<le> roundDiv m (2 ^ q)" using p by (rule roundDiv_ge)
  finally have r: "(2::int) ^ 52 \<le> roundDiv m (2 ^ q)" .
  have "(2::int) ^ 1 \<le> 2 ^ q" using q1 by (intro power_increasing) simp_all
  then have two: "(2::int) \<le> 2 ^ q" by simp
  have "(2::int) ^ 53 = 2 ^ 52 * 2" by simp
  also have "\<dots> \<le> roundDiv m (2 ^ q) * 2 ^ q"
    using r two by (intro mult_mono) simp_all
  finally show ?thesis by (simp add: fl64int_def Let_def q_def b_def)
qed

lemma roundTrips_small:
  assumes "0 < m" "v < 2 ^ 53" "roundTrips m v"
  shows "m = v"
proof (cases "\<bar>m\<bar> < 2 ^ 53")
  case True
  with assms(3) show ?thesis by (simp add: roundTrips_code)
next
  case False
  with assms(1) have big: "2 ^ 53 \<le> m" by simp
  from assms(3) False assms(1) have "fl64int m = v" by (simp add: roundTrips_code)
  with fl64int_lower [OF big] assms(2) show ?thesis by simp
qed

lemma positiveToString_small:
  assumes v: "0 < v" and lt: "v < 2 ^ 53"
  shows "positiveToString v = decimal v"
proof -
  from v lt have "\<bar>v\<bar> < 2 ^ 53" by simp
  then have dbl: "roundTrips v v" by (simp add: roundTrips_def fl64_int)
  from positiveToString_rep [OF v dbl] obtain s n
    where a: "0 < s" "n \<le> Suc (length (decimal v))" "roundTrips (repValue s n) v"
      "positiveToString v = formatDigits s n" by blast
  from roundTrips_small [OF repValue_pos [OF a(1)] lt a(3)] have rv: "repValue s n = v" .
  from decimal_length_bounds [OF v] have "10 ^ (length (decimal v) - 1) \<le> v" by simp
  also have "v < 10 ^ 16" using lt by simp
  finally have "(10::int) ^ (length (decimal v) - 1) < 10 ^ 16" .
  then have "length (decimal v) - 1 < 16" by (simp only: power_strict_increasing_iff)
  with a(2) have "n \<le> 21" by simp
  from formatDigits_fixed [OF a(1) this] a(4) rv show ?thesis by simp
qed

lemma numberToString_small:
  assumes "\<bar>v\<bar> < 2 ^ 53"
  shows "numberToString v = (if v < 0 then CHR ''-'' # decimal (- v) else decimal v)"
proof -
  consider "v = 0" | "0 < v" | "v < 0" by linarith
  then show ?thesis
  proof cases
    case 1
    then show ?thesis by (simp add: numberToString_def decimal_small)
  next
    case 2
    with assms positiveToString_small [of v] show ?thesis by (simp add: numberToString_def)
  next
    case 3
    with assms positiveToString_small [of "- v"] show ?thesis by (simp add: numberToString_def)
  qed
qed

lemma formatDigits_chars:
  assumes "0 < s"
  shows "CHR ''I'' \<notin> set (formatDigits s n)"
proof (cases "n \<le> 21")
  case True
  with assms decimal_chars(4) [of "repValue s n"] repValue_pos [OF assms, of n]
  show ?thesis by (simp add: formatDigits_fixed)
next
  case False
  have c: "decimal s = hd (decimal s) # tl (decimal s)"
    using decimal_nonempty [of s] by simp
  have "CHR ''I'' \<notin> set (decimal s)" using decimal_chars(4) [of s] assms by simp
  then have "CHR ''I'' \<notin> set (hd (decimal s) # tl (decimal s))" using c by simp
  then have m: "CHR ''I'' \<noteq> hd (decimal s)" "CHR ''I'' \<notin> set (tl (decimal s))" by auto
  have x: "CHR ''I'' \<notin> set (decimal (int n - 1))"
    using False by (intro decimal_chars(4)) simp
  from False m x \<open>CHR ''I'' \<notin> set (decimal s)\<close> show ?thesis
    by (simp add: formatDigits_exp)
qed

lemma numberToString_chars:
  assumes "roundTrips v v"
  shows "CHR ''I'' \<notin> set (numberToString v)"
proof -
  have pos: "CHR ''I'' \<notin> set (positiveToString t)" if "0 < t" "roundTrips t t" for t
  proof -
    from positiveToString_rep [OF that] obtain s n
      where "0 < s" "positiveToString t = formatDigits s n" by blast
    with formatDigits_chars [of s n] show ?thesis by simp
  qed
  consider "v = 0" | "0 < v" | "v < 0" by linarith
  then show ?thesis
  proof cases
    case 1
    then show ?thesis by (simp add: numberToString_def)
  next
    case 2
    with pos [OF 2 assms] show ?thesis by (simp add: numberToString_def)
  next
    case 3
    then have "0 < - v" by simp
    from pos [OF this roundTrips_minus [OF assms]] 3 show ?thesis
      by (simp add: numberToString_def)
  qed
qed

lemma numberText_inj:
  assumes a: "isMinorAmount a" and b: "isMinorAmount b" and eq: "numberText a = numberText b"
  shows "a = b"
proof -
  have fin: "numberText (Finite r) \<noteq> ''Infinity'' \<and> numberText (Finite r) \<noteq> ''-Infinity''"
    if "isMinorAmount (Finite r)" for r
  proof -
    from that have "roundTrips \<lfloor>r\<rfloor> \<lfloor>r\<rfloor>" by (simp add: isMinorAmount_def)
    from numberToString_chars [OF this] show ?thesis
      by (auto simp: numberText_def)
  qed
  show ?thesis
  proof (cases a)
    case (Finite r)
    note ra = this
    show ?thesis
    proof (cases b)
      case (Finite r')
      from a ra have 1: "r = of_int \<lfloor>r\<rfloor>" "roundTrips \<lfloor>r\<rfloor> \<lfloor>r\<rfloor>"
        by (simp_all add: isMinorAmount_def)
      from b Finite have 2: "r' = of_int \<lfloor>r'\<rfloor>" "roundTrips \<lfloor>r'\<rfloor> \<lfloor>r'\<rfloor>"
        by (simp_all add: isMinorAmount_def)
      from eq ra Finite have "numberToString \<lfloor>r\<rfloor> = numberToString \<lfloor>r'\<rfloor>"
        by (simp add: numberText_def)
      from numberToString_inj [OF 1(2) 2(2) this] have "\<lfloor>r\<rfloor> = \<lfloor>r'\<rfloor>" .
      with 1(1) 2(1) have "r = r'" by simp
      with ra Finite show ?thesis by simp
    next
      case PosInfinity
      with eq ra fin [of r] a show ?thesis by (simp add: numberText_def)
    next
      case NegInfinity
      with eq ra fin [of r] a show ?thesis by (simp add: numberText_def)
    qed
  next
    case PosInfinity
    note ia = this
    show ?thesis
    proof (cases b)
      case (Finite r')
      with eq ia fin [of r'] b show ?thesis by (simp add: numberText_def)
    next
      case PosInfinity
      with ia show ?thesis by simp
    next
      case NegInfinity
      with eq ia show ?thesis by (simp add: numberText_def)
    qed
  next
    case NegInfinity
    note ia = this
    show ?thesis
    proof (cases b)
      case (Finite r')
      with eq ia fin [of r'] b show ?thesis by (simp add: numberText_def)
    next
      case PosInfinity
      with eq ia show ?thesis by (simp add: numberText_def)
    next
      case NegInfinity
      with ia show ?thesis by simp
    qed
  qed
qed

lemma keyInput_differs:
  assumes "isMinorAmount a" "isMinorAmount a'"
    and "(sms \<noteq> sms' \<and> fd = fd' \<and> a = a' \<and> orEmpty d = orEmpty d') \<or>
         (sms = sms' \<and> fd \<noteq> fd' \<and> a = a' \<and> orEmpty d = orEmpty d') \<or>
         (sms = sms' \<and> fd = fd' \<and> a \<noteq> a' \<and> orEmpty d = orEmpty d') \<or>
         (sms = sms' \<and> fd = fd' \<and> a = a' \<and> orEmpty d \<noteq> orEmpty d')"
  shows "keyInput sms fd a d \<noteq> keyInput sms' fd' a' d'"
  using assms numberText_inj [of a a'] by (auto simp: keyInput_def)

subsection \<open>The amount in minor units is an integral double\<close>

lemma roundHalfEven_le: "x < of_int N \<Longrightarrow> roundHalfEven x \<le> N"
proof -
  assume "x < of_int N"
  then have "\<lfloor>x\<rfloor> < N" by (simp add: floor_less_iff)
  then show ?thesis by (simp add: roundHalfEven_def Let_def)
qed

lemma fl64int_dvd:
  assumes "2 ^ nat (bits m - 53) dvd m"
  shows "fl64int m = m"
proof -
  define p :: int where "p = 2 ^ nat (bits m - 53)"
  have pp: "0 < p" by (simp add: p_def)
  from assms have d: "p dvd m" by (simp add: p_def)
  then have "m mod p = 0" by simp
  with pp have "roundDiv m p = m div p" by (simp add: roundDiv_def Let_def)
  with d show ?thesis by (simp add: fl64int_def Let_def p_def [symmetric])
qed

lemma roundTrips_scaled:
  assumes R0: "0 \<le> R" and R53: "R \<le> 2 ^ 53" and fin: "R * 2 ^ t < 2 ^ 1024"
  shows "roundTrips (R * 2 ^ t) (R * 2 ^ t)"
proof (cases "R * 2 ^ t < 2 ^ 53")
  case True
  moreover from R0 have "0 \<le> R * 2 ^ t" by simp
  ultimately have "\<bar>R * 2 ^ t\<bar> < 2 ^ 53" by simp
  then have "fl64 (of_int (R * 2 ^ t)) = Finite (of_int (R * 2 ^ t))" by (rule fl64_int)
  then show ?thesis by (simp only: roundTrips_def)
next
  case False
  define m where "m = R * 2 ^ t"
  from False have big: "2 ^ 53 \<le> m" by (simp add: m_def)
  have "(0::int) < 2 ^ 53" by simp
  with big have mpos: "0 < m" by linarith
  define b where "b = bits m"
  from bits_bounds [OF mpos] have bb: "0 < b" "2 ^ nat (b - 1) \<le> m" "m < 2 ^ nat b"
    by (simp_all add: b_def)
  from big bb(3) have "(2::int) ^ 53 < 2 ^ nat b" by simp
  then have "53 < nat b" by (simp only: power_strict_increasing_iff)
  then have b54: "54 \<le> b" by simp
  have d: "2 ^ nat (b - 53) dvd m"
  proof (cases "R = 2 ^ 53")
    case True
    then have m: "m = 2 ^ (53 + t)" by (simp add: m_def power_add)
    from bb(2) have "(2::int) ^ nat (b - 1) \<le> 2 ^ (53 + t)" by (simp add: m)
    then have "nat (b - 1) \<le> 53 + t" by (simp only: power_increasing_iff) 
    then have "nat (b - 53) \<le> 53 + t" by simp
    then have "(2::int) ^ nat (b - 53) dvd 2 ^ (53 + t)" by (rule le_imp_power_dvd)
    then show ?thesis by (simp add: m)
  next
    case False
    with R53 have "R < 2 ^ 53" by simp
    then have "R * 2 ^ t < 2 ^ 53 * 2 ^ t" by (simp add: mult_strict_right_mono)
    then have "m < 2 ^ (53 + t)" by (simp add: m_def power_add)
    with bb(2) have "(2::int) ^ nat (b - 1) < 2 ^ (53 + t)" by (rule le_less_trans)
    then have "nat (b - 1) < 53 + t" by (simp only: power_strict_increasing_iff)
    with b54 have "nat (b - 53) \<le> t" by simp
    then have "(2::int) ^ nat (b - 53) dvd 2 ^ t" by (rule le_imp_power_dvd)
    then show ?thesis by (simp add: m_def)
  qed
  from fl64int_dvd [of m] d have fi: "fl64int m = m" by (simp add: b_def)
  from big have nb: "\<not> \<bar>m\<bar> < 2 ^ 53" by simp
  from fin have "m < 2 ^ 1024" by (simp add: m_def)
  with fi nb mpos have "roundTrips m m" by (simp add: roundTrips_code)
  then show ?thesis by (simp add: m_def)
qed

lemma toMinorUnits_minor: "isMinorAmount (toMinorUnits x)"
proof (cases x)
  case PosInfinity
  then show ?thesis by (simp add: toMinorUnits_def jsTimes_def mathRound_def isMinorAmount_def)
next
  case NegInfinity
  then show ?thesis by (simp add: toMinorUnits_def jsTimes_def mathRound_def isMinorAmount_def)
next
  case (Finite a)
  have int_minor: "isMinorAmount (Finite (of_int n))" if "roundTrips n n" for n
    using that by (simp add: isMinorAmount_def)
  show ?thesis
  proof (cases "a * 100 = 0")
    case True
    have "roundTrips 0 0" by (simp add: roundTrips_def fl64_def)
    have "\<lfloor>(1 / 2 :: rat)\<rfloor> = 0" using floor_int_half [of 0] by simp
    with int_minor [OF \<open>roundTrips 0 0\<close>] True Finite show ?thesis
      by (simp add: toMinorUnits_def jsTimes_def mathRound_def fl64_def)
  next
    case False
    define y where "y = a * 100"
    from False have nz: "y \<noteq> 0" by (simp add: y_def)
    define q where "q = max (ilog2 \<bar>y\<bar> - 52) (- 1074)"
    define R where "R = roundHalfEven (\<bar>y\<bar> / pow2 q)"
    define r where "r = of_int R * pow2 q"
    note u = fl64_unfold [OF nz, folded q_def, folded R_def, folded r_def]
    have R0: "0 \<le> R"
      unfolding R_def using pow2_pos [of q] by (intro roundHalfEven_nonneg) simp
    have R53: "R \<le> 2 ^ 53"
    proof -
      from nz have pos: "0 < \<bar>y\<bar>" by simp
      from ilog2_bounds [OF pos] have "\<bar>y\<bar> < pow2 (ilog2 \<bar>y\<bar> + 1)" by simp
      also have "\<dots> \<le> pow2 (q + 53)" by (rule pow2_mono) (simp add: q_def)
      also have "\<dots> = pow2 q * pow2 53" by (rule pow2_add)
      finally have "\<bar>y\<bar> / pow2 q < pow2 53"
        using pow2_pos [of q] by (simp add: field_simps)
      also have "pow2 53 = of_int (2 ^ 53)" by (simp add: pow2_def)
      finally show ?thesis unfolding R_def by (rule roundHalfEven_le)
    qed
    show ?thesis
    proof (cases "pow2 1024 \<le> r")
      case True
      with u(1) Finite show ?thesis
        by (simp add: toMinorUnits_def jsTimes_def mathRound_def isMinorAmount_def y_def)
    next
      case fin: False
      define sr where "sr = (if y < 0 then - r else r)"
      from u(1) fin have "fl64 (a * 100) = Finite sr" by (simp add: sr_def y_def)
      from toMinorUnits_Finite [OF this] Finite
      have res: "toMinorUnits x = Finite (of_int \<lfloor>sr + 1 / 2\<rfloor>)" by simp
      have "roundTrips \<lfloor>sr + 1 / 2\<rfloor> \<lfloor>sr + 1 / 2\<rfloor>"
      proof (cases "q < 0")
        case True
        then have "pow2 q \<le> pow2 (- 1)" by (intro pow2_mono) simp
        then have pq: "pow2 q \<le> 1 / 2" by (simp add: pow2_def)
        from R53 have "(of_int R :: rat) \<le> of_int (2 ^ 53)" by (simp only: of_int_le_iff)
        then have Rr: "(of_int R :: rat) \<le> 2 ^ 53" by simp
        have "r \<le> 2 ^ 53 * (1 / 2)"
          unfolding r_def using Rr pq pow2_pos [of q] R0 by (intro mult_mono) simp_all
        then have rle: "r \<le> 2 ^ 52" by simp
        from u(2) rle have b: "- (2 ^ 52) \<le> sr" "sr \<le> 2 ^ 52" by (simp_all add: sr_def)
        have A: "\<lfloor>sr + 1 / 2\<rfloor> \<le> 2 ^ 52"
          using b(2) by (simp add: floor_le_iff)
        have B: "- (2 ^ 52) \<le> \<lfloor>sr + 1 / 2\<rfloor>"
          using b(1) by (simp add: le_floor_iff)
        have "(2::int) ^ 52 < 2 ^ 53" by simp
        with A B have "\<bar>\<lfloor>sr + 1 / 2\<rfloor>\<bar> < 2 ^ 53" by linarith
        then have "fl64 (of_int \<lfloor>sr + 1 / 2\<rfloor>) = Finite (of_int \<lfloor>sr + 1 / 2\<rfloor>)"
          by (rule fl64_int)
        then show ?thesis by (simp only: roundTrips_def)
      next
        case False
        define t where "t = nat q"
        from False have pq: "pow2 q = of_int (2 ^ t)" by (simp add: pow2_def t_def)
        have rr: "r = of_int (R * 2 ^ t)" by (simp add: r_def pq)
        from fin have "(of_int (R * 2 ^ t) :: rat) < of_int (2 ^ 1024)"
          by (simp add: rr pow2_def)
        then have lt: "R * 2 ^ t < 2 ^ 1024" by (simp only: of_int_less_iff)
        from roundTrips_scaled [OF R0 R53 lt] have rt: "roundTrips (R * 2 ^ t) (R * 2 ^ t)" .
        show ?thesis
        proof (cases "y < 0")
          case True
          then have "sr = of_int (- (R * 2 ^ t))" by (simp add: sr_def rr)
          then have "\<lfloor>sr + 1 / 2\<rfloor> = - (R * 2 ^ t)" by (simp only: floor_int_half)
          with roundTrips_minus [OF rt] show ?thesis by simp
        next
          case False
          then have "sr = of_int (R * 2 ^ t)" by (simp add: sr_def rr)
          then have "\<lfloor>sr + 1 / 2\<rfloor> = R * 2 ^ t" by (simp only: floor_int_half)
          with rt show ?thesis by simp
        qed
      qed
      from int_minor [OF this] res show ?thesis by simp
    qed
  qed
qed

subsection \<open>Examples\<close>

lemma numberText_examples:
  "numberText (Finite 40000000000000096) = ''40000000000000100''"
  "numberText (Finite 1000000000000000000000) = ''1e+21''"
  "numberText (Finite 123456789012345683968) = ''123456789012345680000''"
  "numberText (Finite (- 9223372036854775808)) = ''-9223372036854776000''"
  "numberText (Finite 12300000000000000740680531968) = ''1.23e+28''"
  "numberText (Finite (- 50000)) = ''-50000''"
  "numberText PosInfinity = ''Infinity''"
  "numberText NegInfinity = ''-Infinity''"
  by code_simp+

lemma fl64int_example: "fl64int 40000000000000100 = 40000000000000096"
  by code_simp

lemma toMinorUnits_big: "toMinorUnits (Finite 400000000000001) = Finite 40000000000000096"
proof -
  have "(400000000000001 * 100 :: rat) = of_int 40000000000000100" by simp
  moreover have "fl64 (of_int 40000000000000100) = Finite (of_int 40000000000000096)"
    using fl64_of_int_big [of 40000000000000100] by (simp add: fl64int_example)
  ultimately have "fl64 (400000000000001 * 100) = Finite (of_int 40000000000000096)"
    by (simp only:)
  from toMinorUnits_Finite [OF this] show ?thesis
    by (simp only: floor_int_half) simp
qed

lemma isMinorAmount_examples:
  "isMinorAmount (Finite (- 50000))"
  "isMinorAmount (Finite 40000000000000096)"
  "isMinorAmount PosInfinity"
  by code_simp+

text \<open>The FIPS 180-4 test vector for the message \<open>abc\<close>.\<close>

lemma sha256_abc:
  "sha256 ''abc'' = ''ba7816bf8f01cfea414140de5dae2223b00361a396177a9cb410ff61f20015ad''"
  by code_simp

text \<open>
  The second test vector of FIPS 180-4, of two blocks, and the keys of three tuples; the
  digests are those of a reference implementation of SHA-256.
\<close>

lemma sha256_two_blocks:
  "sha256 ''abcdbcdecdefdefgefghfghighijhijkijkljklmklmnlmnomnopnopq'' =
     ''248d6a61d20638b8e5c026930c3e6039a33ce45964ff2167f6ecedd419db06c1''"
  by code_simp

lemma idKey_example1:
  "idKey ''Rs.500 spent'' ''2024-05-01'' (Finite (- 50000)) (Some ''Amazon'') =
     ''6a3b5e23c303a718dd74f42ae94ab2d4''"
  by code_simp

lemma idKey_example2:
  "idKey ''Rs.500 spent'' ''2024-05-01'' (Finite (- 50000)) None =
     ''ca3e7bab8e87a1f28fea485de14916ad''"
  by code_simp

lemma idKey_example3:
  "idKey ''Rs.500 spent'' ''2024-05-01'' (Finite 40000000000000096) (Some ''Amazon'') =
     ''daf2524ec9e6202db7ae7e7c5f9a47a3''"
  by code_simp

text \<open>
  Claim C1. The idempotency key is a function of the message, the final date, the amount
  in minor units and the description with null replaced by the empty string: equal tuples
  give equal keys. The key is the first 32 hexadecimal digits of the SHA-256 digest of the
  four values joined by \<open>||\<close>, the amount printed as \<open>Number::toString\<close> prints it. Two
  tuples that differ in exactly one component, the amounts being results of
  \<open>Math.round\<close>, are hashed from different texts, so their keys are equal only by a
  collision of the truncated hash. Every result of \<open>toMinorUnits\<close> is such an amount.
  Below \<open>2 ^ 53\<close> an amount prints as its decimal numeral; above, as the shortest numeral
  that is read back as the same double (\<open>40000000000000096\<close>, the minor units of
  \<open>400000000000001\<close>, prints as \<open>40000000000000100\<close>), in exponent notation from
  \<open>10 ^ 21\<close> on. The hash function agrees with SHA-256 on the two test vectors of
  FIPS 180-4, and the keys of three tuples are the ones the program computes; two of them
  differ in the description only, and the keys differ.
\<close>

theorem idKey_function:
  "idKey sms fd a d =
     take 32 (sha256 (sms @ ''||'' @ fd @ ''||'' @ numberText a @ ''||'' @ orEmpty d)) \<and>
   length (idKey sms fd a d) = 32 \<and>
   set (idKey sms fd a d) \<subseteq> set ''0123456789abcdef'' \<and>
   (sms = sms' \<and> fd = fd' \<and> a = a' \<and> orEmpty d = orEmpty d' \<longrightarrow>
      idKey sms fd a d = idKey sms' fd' a' d') \<and>
   (isMinorAmount a \<and> isMinorAmount a' \<and>
    ((sms \<noteq> sms' \<and> fd = fd' \<and> a = a' \<and> orEmpty d = orEmpty d') \<or>
     (sms = sms' \<and> fd \<noteq> fd' \<and> a = a' \<and> orEmpty d = orEmpty d') \<or>
     (sms = sms' \<and> fd = fd' \<and> a \<noteq> a' \<and> orEmpty d = orEmpty d') \<or>
     (sms = sms' \<and> fd = fd' \<and> a = a' \<and> orEmpty d \<noteq> orEmpty d')) \<longrightarrow>
      keyInput sms fd a d \<noteq> keyInput sms' fd' a' d' \<and>
      (idKey sms fd a d = idKey sms' fd' a' d' \<longleftrightarrow>
         collide (keyInput sms fd a d) (keyInput sms' fd' a' d'))) \<and>
   isMinorAmount (toMinorUnits x) \<and>
   (\<bar>n\<bar> < 2 ^ 53 \<longrightarrow>
      numberText (Finite (of_int n)) = (if n < 0 then CHR ''-'' # decimal (- n) else decimal n)) \<and>
   toMinorUnits (Finite 400000000000001) = Finite 40000000000000096 \<and>
   numberText (Finite 40000000000000096) = ''40000000000000100'' \<and>
   numberText (Finite 1000000000000000000000) = ''1e+21'' \<and>
   numberText (Finite 123456789012345683968) = ''123456789012345680000'' \<and>
   numberText (Finite 12300000000000000740680531968) = ''1.23e+28'' \<and>
   numberText PosInfinity = ''Infinity'' \<and>
   numberText NegInfinity = ''-Infinity'' \<and>
   sha256 ''abc'' = ''ba7816bf8f01cfea414140de5dae2223b00361a396177a9cb410ff61f20015ad'' \<and>
   sha256 ''abcdbcdecdefdefgefghfghighijhijkijkljklmklmnlmnomnopnopq'' =
     ''248d6a61d20638b8e5c026930c3e6039a33ce45964ff2167f6ecedd419db06c1'' \<and>
   idKey ''Rs.500 spent'' ''2024-05-01'' (Finite (- 50000)) (Some ''Amazon'') =
     ''6a3b5e23c303a718dd74f42ae94ab2d4'' \<and>
   idKey ''Rs.500 spent'' ''2024-05-01'' (Finite (- 50000)) None =
     ''ca3e7bab8e87a1f28fea485de14916ad'' \<and>
   idKey ''Rs.500 spent'' ''2024-05-01'' (toMinorUnits (Finite 400000000000001)) (Some ''Amazon'') =
     ''daf2524ec9e6202db7ae7e7c5f9a47a3''"
proof (intro conjI impI)
  show "idKey sms fd a d =
     take 32 (sha256 (sms @ ''||'' @ fd @ ''||'' @ numberText a @ ''||'' @ orEmpty d))"
    by (simp add: idKey_def keyInput_def)
  show "length (idKey sms fd a d) = 32"
    by (simp add: idKey_def length_sha256)
  show "set (idKey sms fd a d) \<subseteq> set ''0123456789abcdef''"
    unfolding idKey_def using sha256_hex set_take_subset by (rule order_trans [rotated])
  show "isMinorAmount (toMinorUnits x)"
    by (rule toMinorUnits_minor)
  show "toMinorUnits (Finite 400000000000001) = Finite 40000000000000096"
    by (rule toMinorUnits_big)
  show "numberText (Finite 40000000000000096) = ''40000000000000100''"
    by (rule numberText_examples)
  show "numberText (Finite 1000000000000000000000) = ''1e+21''"
    by (rule numberText_examples)
  show "numberText (Finite 123456789012345683968) = ''123456789012345680000''"
    by (rule numberText_examples)
  show "numberText (Finite 12300000000000000740680531968) = ''1.23e+28''"
    by (rule numberText_examples)
  show "numberText PosInfinity = ''Infinity''"
    by (rule numberText_examples)
  show "numberText NegInfinity = ''-Infinity''"
    by (rule numberText_examples)
  show "sha256 ''abc'' = ''ba7816bf8f01cfea414140de5dae2223b00361a396177a9cb410ff61f20015ad''"
    by (rule sha256_abc)
  show "sha256 ''abcdbcdecdefdefgefghfghighijhijkijkljklmklmnlmnomnopnopq'' =
     ''248d6a61d20638b8e5c026930c3e6039a33ce45964ff2167f6ecedd419db06c1''"
    by (rule sha256_two_blocks)
  show "idKey ''Rs.500 spent'' ''2024-05-01'' (Finite (- 50000)) (Some ''Amazon'') =
     ''6a3b5e23c303a718dd74f42ae94ab2d4''"
    by (rule idKey_example1)
  show "idKey ''Rs.500 spent'' ''2024-05-01'' (Finite (- 50000)) None =
     ''ca3e7bab8e87a1f28fea485de14916ad''"
    by (rule idKey_example2)
  show "idKey ''Rs.500 spent'' ''2024-05-01'' (toMinorUnits (Finite 400000000000001)) (Some ''Amazon'') =
     ''daf2524ec9e6202db7ae7e7c5f9a47a3''"
    unfolding toMinorUnits_big by (rule idKey_example3)
next
  assume "sms = sms' \<and> fd = fd' \<and> a = a' \<and> orEmpty d = orEmpty d'"
  then show "idKey sms fd a d = idKey sms' fd' a' d'"
    by (simp add: idKey_def keyInput_def)
next
  assume h: "isMinorAmount a \<and> isMinorAmount a' \<and>
    ((sms \<noteq> sms' \<and> fd = fd' \<and> a = a' \<and> orEmpty d = orEmpty d') \<or>
     (sms = sms' \<and> fd \<noteq> fd' \<and> a = a' \<and> orEmpty d = orEmpty d') \<or>
     (sms = sms' \<and> fd = fd' \<and> a \<noteq> a' \<and> orEmpty d = orEmpty d') \<or>
     (sms = sms' \<and> fd = fd' \<and> a = a' \<and> orEmpty d \<noteq> orEmpty d'))"
  then show ne: "keyInput sms fd a d \<noteq> keyInput sms' fd' a' d'"
    by (intro keyInput_differs) simp_all
  then show "idKey sms fd a d = idKey sms' fd' a' d' \<longleftrightarrow>
         collide (keyInput sms fd a d) (keyInput sms' fd' a' d')"
    by (simp add: collide_def idKey_def)
next
  assume "\<bar>n\<bar> < 2 ^ 53"
  then show "numberText (Finite (of_int n)) =
      (if n < 0 then CHR ''-'' # decimal (- n) else decimal n)"
    by (simp add: numberText_def numberToString_small)
qed

theorem idKey_function_witness:
  "orEmpty (Some ''Amazon'') \<noteq> orEmpty None \<and>
   orEmpty (Some []) = orEmpty None \<and>
   isMinorAmount (Finite (- 50000)) \<and>
   isMinorAmount (Finite 40000000000000096) \<and>
   idKey ''Rs.500 spent'' ''2024-05-01'' (Finite (- 50000)) (Some []) =
     idKey ''Rs.500 spent'' ''2024-05-01'' (Finite (- 50000)) None \<and>
   keyInput ''Rs.500 spent'' ''2024-05-01'' (Finite (- 50000)) (Some ''Amazon'') \<noteq>
     keyInput ''Rs.500 spent'' ''2024-05-01'' (Finite (- 50000)) None \<and>
   (idKey ''Rs.500 spent'' ''2024-05-01'' (Finite (- 50000)) (Some ''Amazon'') =
      idKey ''Rs.500 spent'' ''2024-05-01'' (Finite (- 50000)) None \<longleftrightarrow>
    collide (keyInput ''Rs.500 spent'' ''2024-05-01'' (Finite (- 50000)) (Some ''Amazon''))
      (keyInput ''Rs.500 spent'' ''2024-05-01'' (Finite (- 50000)) None)) \<and>
   keyInput ''Rs.500 spent'' ''2024-05-01'' (Finite (- 50000)) (Some ''Amazon'') \<noteq>
     keyInput ''Rs.500 spent'' ''2024-05-01'' (Finite 40000000000000096) (Some ''Amazon'') \<and>
   keyInput ''Rs.500 spent'' ''2024-05-01'' (Finite (- 50000)) (Some ''Amazon'') =
     ''Rs.500 spent||2024-05-01||-50000||Amazon'' \<and>
   numberText (Finite (- 50000)) = ''-50000'' \<and>
   \<not> collide (keyInput ''Rs.500 spent'' ''2024-05-01'' (Finite (- 50000)) (Some ''Amazon''))
      (keyInput ''Rs.500 spent'' ''2024-05-01'' (Finite (- 50000)) None)"
proof -
  let ?a = "Finite (- 50000)"
  let ?b = "Finite 40000000000000096"
  have h1: "orEmpty (Some ''Amazon'') \<noteq> orEmpty None"
    by (simp add: orEmpty_def)
  have h2: "orEmpty (Some []) = orEmpty None"
    by (simp add: orEmpty_def)
  have h3: "isMinorAmount ?a"
    by (rule isMinorAmount_examples)
  have h4: "isMinorAmount ?b"
    by (rule isMinorAmount_examples)
  have h5: "?a \<noteq> ?b" by simp
  have h6: "\<bar>- 50000 :: int\<bar> < 2 ^ 53" by simp
  note t = idKey_function [of "''Rs.500 spent''" "''2024-05-01''" ?a "Some ''Amazon''"
      "''Rs.500 spent''" "''2024-05-01''" ?a None]
  note u = idKey_function [of "''Rs.500 spent''" "''2024-05-01''" ?a "Some []"
      "''Rs.500 spent''" "''2024-05-01''" ?a None]
  note v = idKey_function [of "''Rs.500 spent''" "''2024-05-01''" ?a "Some ''Amazon''"
      "''Rs.500 spent''" "''2024-05-01''" ?b "Some ''Amazon''"]
  note w = idKey_function [of _ _ _ _ _ _ _ _ _ "- 50000"]
  from u h2 have c1: "idKey ''Rs.500 spent'' ''2024-05-01'' ?a (Some []) =
     idKey ''Rs.500 spent'' ''2024-05-01'' ?a None"
    by blast
  from t h1 h3 have c2: "keyInput ''Rs.500 spent'' ''2024-05-01'' ?a (Some ''Amazon'') \<noteq>
     keyInput ''Rs.500 spent'' ''2024-05-01'' ?a None"
    by blast
  from t h1 h3 have c3: "idKey ''Rs.500 spent'' ''2024-05-01'' ?a (Some ''Amazon'') =
      idKey ''Rs.500 spent'' ''2024-05-01'' ?a None \<longleftrightarrow>
    collide (keyInput ''Rs.500 spent'' ''2024-05-01'' ?a (Some ''Amazon''))
      (keyInput ''Rs.500 spent'' ''2024-05-01'' ?a None)"
    by blast
  from v h3 h4 h5 have c4: "keyInput ''Rs.500 spent'' ''2024-05-01'' ?a (Some ''Amazon'') \<noteq>
     keyInput ''Rs.500 spent'' ''2024-05-01'' ?b (Some ''Amazon'')"
    by blast
  from w h6 have c6: "numberText (Finite (- 50000)) = ''-50000''"
    by (simp add: decimal_small decimal_big)
  have c5: "keyInput ''Rs.500 spent'' ''2024-05-01'' ?a (Some ''Amazon'') =
     ''Rs.500 spent||2024-05-01||-50000||Amazon''"
    by (simp add: keyInput_def c6 orEmpty_def)
  from t have k1: "idKey ''Rs.500 spent'' ''2024-05-01'' ?a (Some ''Amazon'') =
     ''6a3b5e23c303a718dd74f42ae94ab2d4''" by blast
  from t have k2: "idKey ''Rs.500 spent'' ''2024-05-01'' ?a None =
     ''ca3e7bab8e87a1f28fea485de14916ad''" by blast
  from k1 k2 have "idKey ''Rs.500 spent'' ''2024-05-01'' ?a (Some ''Amazon'') \<noteq>
      idKey ''Rs.500 spent'' ''2024-05-01'' ?a None" by simp
  with c3 have c7: "\<not> collide (keyInput ''Rs.500 spent'' ''2024-05-01'' ?a (Some ''Amazon''))
      (keyInput ''Rs.500 spent'' ''2024-05-01'' ?a None)"
    by simp
  show ?thesis
    by (intro conjI h1 h2 h3 h4 c1 c2 c3 c4 c5 c6 c7)
qed

section \<open>Properties of account matching\<close>

lemma find_first_index:
  assumes "\<exists>a\<in>set xs. P a"
  shows "\<exists>i<length xs. find P xs = Some (xs ! i) \<and> P (xs ! i) \<and> (\<forall>j<i. \<not> P (xs ! j))"
proof -
  from assms obtain a where "find P xs = Some a"
    by (cases "find P xs") (auto simp: find_None_iff)
  then show ?thesis
    by (auto simp: find_Some_iff)
qed

lemma matchAccount_exact:
  "find (exactMatch label) accts = Some a \<Longrightarrow> matchAccount accts label sms = Some a"
  by (simp add: matchAccount_def)

lemma matchAccount_partial:
  "find (exactMatch label) accts = None \<Longrightarrow> partialStage accts label = Some a
     \<Longrightarrow> matchAccount accts label sms = Some a"
  by (simp add: matchAccount_def)

lemma matchAccount_fallback:
  "find (exactMatch label) accts = None \<Longrightarrow> partialStage accts label = None
     \<Longrightarrow> matchAccount accts label sms = digitFallback accts (extractDigits sms)"
  by (simp add: matchAccount_def)

text \<open>
  Claim C3, as stated, fails on the code for the substring stage. With the empty label
  every catalog name contains the label, so a substring match exists, yet the code skips
  the stage (the label is falsy) and returns the account of the digit fallback. With the
  label \<open>axisbank\<close> the name \<open>Axis-Bank\<close> matches the substring stage as the
  specification words it (punctuation stripped), the code strips only \<open>*\<close> and
  whitespace, finds no match and returns the account of the digit fallback.
\<close>

theorem matchAccount_priority_counterexample:
  "find (exactMatch (Some [])) axisCatalog = None \<and>
   partialMatch [] (axisCatalog ! 0) \<and>
   includesStr (toLowerCase (account.name (axisCatalog ! 0))) (toLowerCase []) \<and>
   substringStage_spec [] (axisCatalog ! 0) \<and>
   digitFallback axisCatalog (extractDigits ''Ref 1234'') = Some (axisCatalog ! 1) \<and>
   matchAccount axisCatalog (Some []) ''Ref 1234'' = Some (axisCatalog ! 1) \<and>
   axisCatalog ! 1 \<noteq> axisCatalog ! 0 \<and>
   find (exactMatch (Some ''axisbank'')) axisCatalog = None \<and>
   substringStage_spec ''axisbank'' (axisCatalog ! 0) \<and>
   \<not> partialMatch ''axisbank'' (axisCatalog ! 0) \<and>
   matchAccount axisCatalog (Some ''axisbank'') ''Ref 1234'' = Some (axisCatalog ! 1)"
  by code_simp

text \<open>
  Claim C3, amended. Account resolution is first-match-wins in strict priority order. If
  some catalog account name equals the label case-insensitively, the first such account is
  returned, whatever the message and whatever the other accounts are (so also when a
  substring match or a digit-fallback match exists). If no name equals the label, the
  label is not empty and some account passes the substring test of the code, the first
  account that passes it is returned, whatever the message (so in preference to any
  digit-fallback match). When no account passes either stage, and when the label is null
  or empty (no name being empty), the result is that of the digit fallback.
\<close>

theorem matchAccount_priority:
  "((\<exists>a\<in>set accts. toLowerCase (account.name a) = toLowerCase l) \<longrightarrow>
      (\<exists>i<length accts.
         matchAccount accts (Some l) sms = Some (accts ! i) \<and>
         toLowerCase (account.name (accts ! i)) = toLowerCase l \<and>
         (\<forall>j<i. toLowerCase (account.name (accts ! j)) \<noteq> toLowerCase l)))
   \<and>
   (l \<noteq> [] \<and> (\<forall>a\<in>set accts. toLowerCase (account.name a) \<noteq> toLowerCase l) \<and>
      (\<exists>a\<in>set accts. partialMatch l a) \<longrightarrow>
      (\<exists>i<length accts.
         matchAccount accts (Some l) sms = Some (accts ! i) \<and>
         partialMatch l (accts ! i) \<and>
         (\<forall>j<i. \<not> partialMatch l (accts ! j))))
   \<and>
   (l \<noteq> [] \<and> (\<forall>a\<in>set accts. toLowerCase (account.name a) \<noteq> toLowerCase l) \<and>
      (\<forall>a\<in>set accts. \<not> partialMatch l a) \<longrightarrow>
      matchAccount accts (Some l) sms = digitFallback accts (extractDigits sms))
   \<and>
   ((\<forall>a\<in>set accts. account.name a \<noteq> []) \<longrightarrow>
      matchAccount accts (Some []) sms = digitFallback accts (extractDigits sms))
   \<and>
   matchAccount accts None sms = digitFallback accts (extractDigits sms)"
proof (intro conjI impI)
  assume "\<exists>a\<in>set accts. toLowerCase (account.name a) = toLowerCase l"
  then have "\<exists>a\<in>set accts. exactMatch (Some l) a"
    by (simp add: exactMatch_def)
  from find_first_index [OF this]
  obtain i where i: "i < length accts" "find (exactMatch (Some l)) accts = Some (accts ! i)"
    "exactMatch (Some l) (accts ! i)" "\<forall>j<i. \<not> exactMatch (Some l) (accts ! j)"
    by blast
  from i(2) have "matchAccount accts (Some l) sms = Some (accts ! i)"
    by (rule matchAccount_exact)
  with i(1,3,4)
  show "\<exists>i<length accts.
         matchAccount accts (Some l) sms = Some (accts ! i) \<and>
         toLowerCase (account.name (accts ! i)) = toLowerCase l \<and>
         (\<forall>j<i. toLowerCase (account.name (accts ! j)) \<noteq> toLowerCase l)"
    by (auto simp: exactMatch_def)
next
  assume h: "l \<noteq> [] \<and> (\<forall>a\<in>set accts. toLowerCase (account.name a) \<noteq> toLowerCase l) \<and>
      (\<exists>a\<in>set accts. partialMatch l a)"
  then have none: "find (exactMatch (Some l)) accts = None"
    by (simp add: find_None_iff exactMatch_def)
  from h have "\<exists>a\<in>set accts. partialMatch l a" by simp
  from find_first_index [OF this]
  obtain i where i: "i < length accts" "find (partialMatch l) accts = Some (accts ! i)"
    "partialMatch l (accts ! i)" "\<forall>j<i. \<not> partialMatch l (accts ! j)"
    by blast
  from h i(2) have "partialStage accts (Some l) = Some (accts ! i)"
    by (simp add: partialStage_def)
  with none have "matchAccount accts (Some l) sms = Some (accts ! i)"
    by (rule matchAccount_partial)
  with i(1,3,4)
  show "\<exists>i<length accts.
         matchAccount accts (Some l) sms = Some (accts ! i) \<and>
         partialMatch l (accts ! i) \<and>
         (\<forall>j<i. \<not> partialMatch l (accts ! j))"
    by blast
next
  assume h: "l \<noteq> [] \<and> (\<forall>a\<in>set accts. toLowerCase (account.name a) \<noteq> toLowerCase l) \<and>
      (\<forall>a\<in>set accts. \<not> partialMatch l a)"
  then have none: "find (exactMatch (Some l)) accts = None"
    by (simp add: find_None_iff exactMatch_def)
  from h have "partialStage accts (Some l) = None"
    by (simp add: partialStage_def find_None_iff)
  with none show "matchAccount accts (Some l) sms = digitFallback accts (extractDigits sms)"
    by (rule matchAccount_fallback)
next
  assume h: "\<forall>a\<in>set accts. account.name a \<noteq> []"
  then have none: "find (exactMatch (Some [])) accts = None"
    by (simp add: find_None_iff exactMatch_def toLowerCase_def)
  have "partialStage accts (Some []) = None"
    by (simp add: partialStage_def)
  with none show "matchAccount accts (Some []) sms = digitFallback accts (extractDigits sms)"
    by (rule matchAccount_fallback)
next
  have none: "find (exactMatch None) accts = None"
    by (simp add: find_None_iff exactMatch_def)
  have "partialStage accts None = None"
    by (simp add: partialStage_def)
  with none show "matchAccount accts None sms = digitFallback accts (extractDigits sms)"
    by (rule matchAccount_fallback)
qed

theorem matchAccount_priority_witness:
  "(\<exists>a\<in>set catalog3. toLowerCase (account.name a) = toLowerCase ''HSBC'') \<and>
   (\<exists>i<length catalog3.
      matchAccount catalog3 (Some ''HSBC'') ''Card 1234'' = Some (catalog3 ! i) \<and>
      toLowerCase (account.name (catalog3 ! i)) = toLowerCase ''HSBC'') \<and>
   partialMatch ''HSBC'' (catalog3 ! 0) \<and>
   digitFallback catalog3 (extractDigits ''Card 1234'') = Some (catalog3 ! 0) \<and>
   matchAccount catalog3 (Some ''HSBC'') ''Card 1234'' = Some (catalog3 ! 1) \<and>
   find (exactMatch (Some ''ICICI'')) catalog3 = None \<and>
   (\<exists>a\<in>set catalog3. partialMatch ''ICICI'' a) \<and>
   (\<exists>i<length catalog3.
      matchAccount catalog3 (Some ''ICICI'') ''Card 1234'' = Some (catalog3 ! i) \<and>
      partialMatch ''ICICI'' (catalog3 ! i)) \<and>
   matchAccount catalog3 (Some ''ICICI'') ''Card 1234'' = Some (catalog3 ! 2) \<and>
   find (exactMatch (Some ''Axis'')) catalog3 = None \<and>
   find (partialMatch ''Axis'') catalog3 = None \<and>
   matchAccount catalog3 (Some ''Axis'') ''Card 1234'' = digitFallback catalog3 (extractDigits ''Card 1234'') \<and>
   matchAccount catalog3 (Some []) ''Card 1234'' = digitFallback catalog3 (extractDigits ''Card 1234'') \<and>
   matchAccount catalog3 None ''Card 1234'' = Some (catalog3 ! 0)"
proof -
  have h1: "\<exists>a\<in>set catalog3. toLowerCase (account.name a) = toLowerCase ''HSBC''"
    by code_simp
  have h2: "''ICICI'' \<noteq> [] \<and>
      (\<forall>a\<in>set catalog3. toLowerCase (account.name a) \<noteq> toLowerCase ''ICICI'') \<and>
      (\<exists>a\<in>set catalog3. partialMatch ''ICICI'' a)"
    by code_simp
  have h3: "''Axis'' \<noteq> [] \<and>
      (\<forall>a\<in>set catalog3. toLowerCase (account.name a) \<noteq> toLowerCase ''Axis'') \<and>
      (\<forall>a\<in>set catalog3. \<not> partialMatch ''Axis'' a)"
    by code_simp
  have h4: "\<forall>a\<in>set catalog3. account.name a \<noteq> []"
    by code_simp
  have e1: "partialMatch ''HSBC'' (catalog3 ! 0)"
    by code_simp
  have e2: "digitFallback catalog3 (extractDigits ''Card 1234'') = Some (catalog3 ! 0)"
    by code_simp
  have e3: "matchAccount catalog3 (Some ''HSBC'') ''Card 1234'' = Some (catalog3 ! 1)"
    by code_simp
  have e4: "matchAccount catalog3 (Some ''ICICI'') ''Card 1234'' = Some (catalog3 ! 2)"
    by code_simp
  have e5: "find (exactMatch (Some ''ICICI'')) catalog3 = None"
    by code_simp
  have e6: "find (exactMatch (Some ''Axis'')) catalog3 = None"
    by code_simp
  have e7: "find (partialMatch ''Axis'') catalog3 = None"
    by code_simp
  note t = matchAccount_priority [of catalog3 "''HSBC''" "''Card 1234''"]
  note u = matchAccount_priority [of catalog3 "''ICICI''" "''Card 1234''"]
  note v = matchAccount_priority [of catalog3 "''Axis''" "''Card 1234''"]
  from t h1
  have t1: "\<exists>i<length catalog3.
      matchAccount catalog3 (Some ''HSBC'') ''Card 1234'' = Some (catalog3 ! i) \<and>
      toLowerCase (account.name (catalog3 ! i)) = toLowerCase ''HSBC''"
    by blast
  from u h2
  have t2: "\<exists>i<length catalog3.
      matchAccount catalog3 (Some ''ICICI'') ''Card 1234'' = Some (catalog3 ! i) \<and>
      partialMatch ''ICICI'' (catalog3 ! i)"
    by blast
  from v h3
  have t3: "matchAccount catalog3 (Some ''Axis'') ''Card 1234'' =
      digitFallback catalog3 (extractDigits ''Card 1234'')"
    by blast
  from v h4
  have t4: "matchAccount catalog3 (Some []) ''Card 1234'' =
      digitFallback catalog3 (extractDigits ''Card 1234'')"
    by blast
  from v e2
  have t5: "matchAccount catalog3 None ''Card 1234'' = Some (catalog3 ! 0)"
    by simp
  note h2c = h2 [THEN conjunct2, THEN conjunct2]
  show ?thesis
    by (intro conjI h1 h2c e1 e2 e3 e4 e5 e6 e7 t1 t2 t3 t4 t5)
qed

section \<open>The substring stage\<close>

lemma includesStr_iff: "includesStr s t \<longleftrightarrow> (\<exists>p q. s = p @ t @ q)"
proof (induction s)
  case Nil
  then show ?case by auto
next
  case (Cons c cs)
  show ?case
  proof
    assume "includesStr (c # cs) t"
    then consider "prefix t (c # cs)" | "includesStr cs t" by auto
    then show "\<exists>p q. c # cs = p @ t @ q"
    proof cases
      case 1
      then obtain q where "c # cs = t @ q" by (auto simp: prefix_def)
      then have "c # cs = [] @ t @ q" by simp
      then show ?thesis by blast
    next
      case 2
      with Cons.IH obtain p q where "cs = p @ t @ q" by blast
      then have "c # cs = (c # p) @ t @ q" by simp
      then show ?thesis by blast
    qed
  next
    assume "\<exists>p q. c # cs = p @ t @ q"
    then obtain p q where pq: "c # cs = p @ t @ q" by blast
    show "includesStr (c # cs) t"
    proof (cases p)
      case Nil
      with pq have "prefix t (c # cs)" by (simp add: prefix_def)
      then show ?thesis by simp
    next
      case (Cons d p')
      with pq have "cs = p' @ t @ q" by simp
      with Cons.IH have "includesStr cs t" by blast
      then show ?thesis by simp
    qed
  qed
qed

text \<open>
  Claim C5, as stated, fails on the code in three ways. The direction "name contains
  label" tests the catalog name as it is, not stripped: the label \<open>HSBC ****\<close> matches
  the account \<open>HSBC ****0001\<close> though the stripped name \<open>hsbc0001\<close> neither contains
  the label nor is contained in it. Only \<open>*\<close> and whitespace are stripped, not
  punctuation: the label \<open>axisbank\<close> does not match the account \<open>Axis-Bank\<close>. And a
  non-null but empty label skips the stage, though every string contains the empty string.
\<close>

theorem partialStage_spec_counterexample:
  "partialStage [acct ''a1'' ''HSBC ****0001''] (Some ''HSBC ****'') = Some (acct ''a1'' ''HSBC ****0001'') \<and>
   \<not> substringStage_spec ''HSBC ****'' (acct ''a1'' ''HSBC ****0001'') \<and>
   partialStage [acct ''a3'' ''Axis-Bank''] (Some ''axisbank'') = None \<and>
   substringStage_spec ''axisbank'' (acct ''a3'' ''Axis-Bank'') \<and>
   partialStage [acct ''a3'' ''Axis-Bank''] (Some []) = None \<and>
   substringStage_spec [] (acct ''a3'' ''Axis-Bank'')"
  by code_simp

text \<open>
  Claim C5, amended. The substring stage runs for a non-empty label only (a null or empty
  label skips it). For a non-empty label and a catalog account it matches exactly when
  the lower-cased catalog name, as it is, contains the lower-cased label, or the
  lower-cased label contains the lower-cased catalog name with every \<open>*\<close> and whitespace
  character removed; over a catalog the stage returns the first account that matches.
\<close>

theorem partialStage_characterisation:
  "partialStage accts None = None \<and>
   partialStage accts (Some []) = None \<and>
   (l \<noteq> [] \<longrightarrow>
      (partialStage [a] (Some l) = Some a \<longleftrightarrow>
         (\<exists>p q. toLowerCase (account.name a) = p @ toLowerCase l @ q) \<or>
         (\<exists>p q. toLowerCase l =
            p @ filter (\<lambda>c. c \<noteq> CHR ''*'' \<and> \<not> isSpace c) (toLowerCase (account.name a)) @ q))) \<and>
   (l \<noteq> [] \<longrightarrow>
      partialStage accts (Some l) =
        find (\<lambda>a. (\<exists>p q. toLowerCase (account.name a) = p @ toLowerCase l @ q) \<or>
                  (\<exists>p q. toLowerCase l =
                     p @ filter (\<lambda>c. c \<noteq> CHR ''*'' \<and> \<not> isSpace c) (toLowerCase (account.name a)) @ q))
             accts)"
proof -
  have pm: "partialMatch l b \<longleftrightarrow>
      (\<exists>p q. toLowerCase (account.name b) = p @ toLowerCase l @ q) \<or>
      (\<exists>p q. toLowerCase l =
         p @ filter (\<lambda>c. c \<noteq> CHR ''*'' \<and> \<not> isSpace c) (toLowerCase (account.name b)) @ q)" for b
    by (simp add: partialMatch_def includesStr_iff stripStarSpace_def)
  have "partialMatch l = (\<lambda>a. (\<exists>p q. toLowerCase (account.name a) = p @ toLowerCase l @ q) \<or>
                  (\<exists>p q. toLowerCase l =
                     p @ filter (\<lambda>c. c \<noteq> CHR ''*'' \<and> \<not> isSpace c) (toLowerCase (account.name a)) @ q))"
    by (rule ext) (rule pm)
  then have all: "l \<noteq> [] \<Longrightarrow> partialStage accts (Some l) =
        find (\<lambda>a. (\<exists>p q. toLowerCase (account.name a) = p @ toLowerCase l @ q) \<or>
                  (\<exists>p q. toLowerCase l =
                     p @ filter (\<lambda>c. c \<noteq> CHR ''*'' \<and> \<not> isSpace c) (toLowerCase (account.name a)) @ q))
             accts"
    by (simp add: partialStage_def)
  have one: "l \<noteq> [] \<Longrightarrow> partialStage [a] (Some l) = Some a \<longleftrightarrow> partialMatch l a"
    by (simp add: partialStage_def)
  show ?thesis
    using all one pm [of a] by (simp add: partialStage_def)
qed

theorem partialStage_characterisation_witness:
  "''HSBC'' \<noteq> [] \<and>
   (\<exists>p q. toLowerCase (account.name (acct ''a1'' ''HSBC ****0001'')) = p @ toLowerCase ''HSBC'' @ q) \<and>
   partialStage [acct ''a1'' ''HSBC ****0001''] (Some ''HSBC'') = Some (acct ''a1'' ''HSBC ****0001'')"
proof -
  have h: "''HSBC'' \<noteq> []" by simp
  have "includesStr (toLowerCase (account.name (acct ''a1'' ''HSBC ****0001''))) (toLowerCase ''HSBC'')"
    by code_simp
  then have r: "\<exists>p q. toLowerCase (account.name (acct ''a1'' ''HSBC ****0001'')) = p @ toLowerCase ''HSBC'' @ q"
    by (simp only: includesStr_iff)
  from partialStage_characterisation [of "[]" "''HSBC''" "acct ''a1'' ''HSBC ****0001''"] h r
  have "partialStage [acct ''a1'' ''HSBC ****0001''] (Some ''HSBC'') = Some (acct ''a1'' ''HSBC ****0001'')"
    by blast
  with h r show ?thesis by blast
qed

section \<open>The digit fallback\<close>

lemma extractDigits_skip:
  "\<not> isDigit c \<Longrightarrow> extractDigits (c # s) = extractDigits s"
  by (cases s rule: extractDigits.cases) auto

lemma extractDigits_nondigits:
  "\<forall>c\<in>set nd. \<not> isDigit c \<Longrightarrow> extractDigits (nd @ s) = extractDigits s"
  by (induction nd) (simp_all add: extractDigits_skip)

lemma extractDigits_short:
  assumes "length r < 4" and "s = [] \<or> \<not> isDigit (hd s)"
  shows "extractDigits (r @ s) = extractDigits s"
  using assms
proof (induction r)
  case Nil
  then show ?case by simp
next
  case (Cons x r)
  then have IH: "extractDigits (r @ s) = extractDigits s" by simp
  have "extractDigits (x # r @ s) = extractDigits (r @ s)"
    using Cons.prems
    by (cases r rule: extractDigits.cases; cases s rule: extractDigits.cases; auto)
  with IH show ?case by simp
qed

lemma extractDigits_run:
  assumes "\<forall>c\<in>set r. isDigit c" and "s = [] \<or> \<not> isDigit (hd s)"
  shows "extractDigits (r @ s) = chunks4 r @ extractDigits s"
  using assms
proof (induction r rule: chunks4.induct)
  case (1 a b c d rest)
  then show ?case by simp
qed (simp_all add: extractDigits_short [of "[a]" for a, simplified]
      extractDigits_short [of "[a, b]" for a b, simplified]
      extractDigits_short [of "[a, b, c]" for a b c, simplified])

lemma dropWhile_digit_head: "dropWhile isDigit cs = [] \<or> \<not> isDigit (hd (dropWhile isDigit cs))"
  by (metis hd_dropWhile)

lemma extractDigits_chunks: "extractDigits s = concat (map chunks4 (digitRuns s))"
proof (induction s rule: digitRuns.induct)
  case 1
  then show ?case by simp
next
  case (2 c cs)
  show ?case
  proof (cases "isDigit c")
    case True
    let ?r = "takeWhile isDigit (c # cs)" and ?s = "dropWhile isDigit cs"
    from True have split: "c # cs = ?r @ ?s" by simp
    have "\<forall>x\<in>set ?r. isDigit x" by (auto dest: set_takeWhileD)
    from extractDigits_run [OF this dropWhile_digit_head [of cs]]
    have "extractDigits (?r @ ?s) = chunks4 ?r @ extractDigits ?s" .
    with split 2(1) [OF True] True show ?thesis by simp
  next
    case False
    with 2(2) show ?thesis by (simp add: extractDigits_skip)
  qed
qed

lemma chunks4_le4: "length r \<le> 4 \<Longrightarrow> chunks4 r = (if length r = 4 then [r] else [])"
  by (cases r rule: chunks4.cases) auto

lemma concat_chunks4_le4:
  "\<forall>r\<in>set rs. length r \<le> 4 \<Longrightarrow> concat (map chunks4 rs) = filter (\<lambda>r. length r = 4) rs"
  by (induction rs) (auto simp: chunks4_le4)

lemma extractDigits_runs_le4:
  "\<forall>r\<in>set (digitRuns s). length r \<le> 4 \<Longrightarrow> extractDigits s = runsOfExactlyFour s"
  by (simp add: extractDigits_chunks runsOfExactlyFour_def concat_chunks4_le4)

lemma digitFallback_iff:
  "digitFallback accts ds = Some a \<longleftrightarrow>
     (\<exists>k<length ds.
        (\<forall>j<k. find (\<lambda>b. includesStr (account.name b) (ds ! j)) accts = None) \<and>
        find (\<lambda>b. includesStr (account.name b) (ds ! k)) accts = Some a)"
proof (induction ds)
  case Nil
  then show ?case by simp
next
  case (Cons d ds)
  show ?case
  proof (cases "find (\<lambda>b. includesStr (account.name b) d) accts")
    case None
    have "(\<exists>k<length (d # ds).
        (\<forall>j<k. find (\<lambda>b. includesStr (account.name b) ((d # ds) ! j)) accts = None) \<and>
        find (\<lambda>b. includesStr (account.name b) ((d # ds) ! k)) accts = Some a)
      \<longleftrightarrow> (\<exists>k<length ds.
        (\<forall>j<k. find (\<lambda>b. includesStr (account.name b) (ds ! j)) accts = None) \<and>
        find (\<lambda>b. includesStr (account.name b) (ds ! k)) accts = Some a)" (is "?L \<longleftrightarrow> ?R")
    proof
      assume ?L
      then obtain k where k: "k < length (d # ds)"
        "\<forall>j<k. find (\<lambda>b. includesStr (account.name b) ((d # ds) ! j)) accts = None"
        "find (\<lambda>b. includesStr (account.name b) ((d # ds) ! k)) accts = Some a" by blast
      with None obtain k' where k': "k = Suc k'" by (cases k) auto
      with k have "k' < length ds" "find (\<lambda>b. includesStr (account.name b) (ds ! k')) accts = Some a"
        by auto
      moreover have "\<forall>j<k'. find (\<lambda>b. includesStr (account.name b) (ds ! j)) accts = None"
      proof (intro allI impI)
        fix j assume "j < k'"
        then have "Suc j < k" using k' by simp
        with k(2) have "find (\<lambda>b. includesStr (account.name b) ((d # ds) ! Suc j)) accts = None" by blast
        then show "find (\<lambda>b. includesStr (account.name b) (ds ! j)) accts = None" by simp
      qed
      ultimately show ?R by blast
    next
      assume ?R
      then obtain k where k: "k < length ds"
        "\<forall>j<k. find (\<lambda>b. includesStr (account.name b) (ds ! j)) accts = None"
        "find (\<lambda>b. includesStr (account.name b) (ds ! k)) accts = Some a" by blast
      have "\<forall>j<Suc k. find (\<lambda>b. includesStr (account.name b) ((d # ds) ! j)) accts = None"
      proof (intro allI impI)
        fix j assume "j < Suc k"
        then show "find (\<lambda>b. includesStr (account.name b) ((d # ds) ! j)) accts = None"
          using None k(2) by (cases j) auto
      qed
      with k(1,3) have "Suc k < length (d # ds) \<and>
         (\<forall>j<Suc k. find (\<lambda>b. includesStr (account.name b) ((d # ds) ! j)) accts = None) \<and>
         find (\<lambda>b. includesStr (account.name b) ((d # ds) ! Suc k)) accts = Some a" by simp
      then show ?L by blast
    qed
    with None Cons.IH show ?thesis by simp
  next
    case (Some b)
    have "(\<exists>k<length (d # ds).
        (\<forall>j<k. find (\<lambda>b. includesStr (account.name b) ((d # ds) ! j)) accts = None) \<and>
        find (\<lambda>b. includesStr (account.name b) ((d # ds) ! k)) accts = Some a) \<longleftrightarrow> b = a"
      (is "?L \<longleftrightarrow> _")
    proof
      assume ?L
      then obtain k where k: "k < length (d # ds)"
        "\<forall>j<k. find (\<lambda>b. includesStr (account.name b) ((d # ds) ! j)) accts = None"
        "find (\<lambda>b. includesStr (account.name b) ((d # ds) ! k)) accts = Some a" by blast
      have "k = 0"
      proof (rule ccontr)
        assume "k \<noteq> 0"
        then have "0 < k" by simp
        with k(2) have "find (\<lambda>b. includesStr (account.name b) ((d # ds) ! 0)) accts = None" by blast
        with Some show False by simp
      qed
      with k(3) Some show "b = a" by simp
    next
      assume "b = a"
      with Some have "0 < length (d # ds) \<and>
        (\<forall>j<0. find (\<lambda>b. includesStr (account.name b) ((d # ds) ! j)) accts = None) \<and>
        find (\<lambda>b. includesStr (account.name b) ((d # ds) ! 0)) accts = Some a" by simp
      then show ?L by blast
    qed
    with Some show ?thesis by simp
  qed
qed

lemma extractDigits_first:
  assumes "\<forall>c\<in>set nd. \<not> isDigit c" and "isDigit a" "isDigit b" "isDigit c" "isDigit d"
  shows "extractDigits (nd @ a # b # c # d # post) = [a, b, c, d] # extractDigits post"
  using assms by (simp add: extractDigits_nondigits)


lemma takeWhile_digit_append:
  "\<not> isDigit c \<Longrightarrow> takeWhile isDigit (xs @ c # v) = takeWhile isDigit xs"
  by (induction xs) auto

lemma dropWhile_digit_append:
  "\<not> isDigit c \<Longrightarrow> dropWhile isDigit (xs @ c # v) = dropWhile isDigit xs @ c # v"
  by (induction xs) auto

lemma digitRuns_append:
  "\<not> isDigit c \<Longrightarrow> digitRuns (u @ c # v) = digitRuns u @ digitRuns v"
proof (induction u rule: digitRuns.induct)
  case 1
  then show ?case by simp
next
  case (2 x xs)
  show ?case
  proof (cases "isDigit x")
    case True
    with 2(1) [OF True 2(3)] 2(3) show ?thesis
      by (simp add: takeWhile_digit_append dropWhile_digit_append)
  next
    case False
    with 2(2) [OF False 2(3)] show ?thesis by simp
  qed
qed

lemma extractDigits_append:
  "\<not> isDigit c \<Longrightarrow> extractDigits (u @ c # v) = extractDigits u @ extractDigits v"
  by (simp add: extractDigits_chunks digitRuns_append)

text \<open>
  Claim C4, as stated, fails on the code: the extraction does not return the runs of
  exactly four consecutive digits. From the five-digit run of \<open>Ref 12345\<close> it extracts
  \<open>1234\<close>, which is neither what the maximal runs of length four give (nothing) nor
  what all windows of four digits give (\<open>1234\<close> and \<open>2345\<close>); and the fallback then
  resolves that message to an account named \<open>Card 1234\<close>.
\<close>

theorem extractDigits_spec_counterexample:
  "extractDigits ''Ref 12345'' = [''1234''] \<and>
   runsOfExactlyFour ''Ref 12345'' = [] \<and>
   fourDigitWindows ''Ref 12345'' = [''1234'', ''2345''] \<and>
   matchAccount [acct ''a1'' ''Card 1234''] None ''Ref 12345'' = Some (acct ''a1'' ''Card 1234'')"
  by code_simp

text \<open>
  Claim C4, amended. The digit fallback runs when the exact and the substring stage found
  nothing, and reads the raw message text only (not the label). It extracts from every
  maximal run of digits of the message, in order of appearance, the successive
  non-overlapping blocks of four digits (a run shorter than four gives nothing, a run of
  exactly four gives itself, a longer run gives its leading blocks of four); when no run
  is longer than four, these are the runs of exactly four digits. For each extracted block
  in order it returns the first catalog account whose name contains the block as a
  substring. For the catalog \<open>HSBC ****0001\<close> (a1), \<open>ICICI ****2979\<close> (a2), a null label
  and a message in which \<open>Card 2979\<close> follows text without a four-digit block, the
  result is a2.
\<close>

theorem digitFallback_blocks:
  "(find (exactMatch label) accts = None \<and> partialStage accts label = None \<longrightarrow>
      matchAccount accts label sms = digitFallback accts (extractDigits sms)) \<and>
   extractDigits sms = concat (map chunks4 (digitRuns sms)) \<and>
   ((\<forall>r\<in>set (digitRuns sms). length r \<le> 4) \<longrightarrow> extractDigits sms = runsOfExactlyFour sms) \<and>
   (digitFallback accts ds = Some a \<longleftrightarrow>
      (\<exists>k<length ds.
         (\<forall>j<k. find (\<lambda>b. \<exists>p q. account.name b = p @ ds ! j @ q) accts = None) \<and>
         find (\<lambda>b. \<exists>p q. account.name b = p @ ds ! k @ q) accts = Some a)) \<and>
   (extractDigits pre = [] \<longrightarrow>
      matchAccount [acct ''a1'' ''HSBC ****0001'', acct ''a2'' ''ICICI ****2979''] None
        (pre @ ''Card 2979'' @ post) = Some (acct ''a2'' ''ICICI ****2979''))"
proof (intro conjI impI)
  assume "find (exactMatch label) accts = None \<and> partialStage accts label = None"
  then show "matchAccount accts label sms = digitFallback accts (extractDigits sms)"
    by (simp add: matchAccount_fallback)
next
  show "extractDigits sms = concat (map chunks4 (digitRuns sms))"
    by (rule extractDigits_chunks)
next
  assume "\<forall>r\<in>set (digitRuns sms). length r \<le> 4"
  then show "extractDigits sms = runsOfExactlyFour sms"
    by (rule extractDigits_runs_le4)
next
  show "digitFallback accts ds = Some a \<longleftrightarrow>
      (\<exists>k<length ds.
         (\<forall>j<k. find (\<lambda>b. \<exists>p q. account.name b = p @ ds ! j @ q) accts = None) \<and>
         find (\<lambda>b. \<exists>p q. account.name b = p @ ds ! k @ q) accts = Some a)"
    by (simp only: digitFallback_iff includesStr_iff)
next
  assume pre: "extractDigits pre = []"
  let ?cat = "[acct ''a1'' ''HSBC ****0001'', acct ''a2'' ''ICICI ****2979'']"
  have "extractDigits (pre @ CHR ''C'' # (''ard '' @ ''2979'' @ post))
          = extractDigits pre @ extractDigits (''ard '' @ ''2979'' @ post)"
    by (rule extractDigits_append) (simp add: isDigit_def)
  also have "extractDigits (''ard '' @ ''2979'' @ post) = ''2979'' # extractDigits post"
    using extractDigits_first [of "''ard ''" "CHR ''2''" "CHR ''9''" "CHR ''7''" "CHR ''9''" post]
    by (simp add: isDigit_def)
  finally have ex: "extractDigits (pre @ ''Card 2979'' @ post) = ''2979'' # extractDigits post"
    using pre by simp
  have "find (exactMatch None) ?cat = None"
    by (simp add: exactMatch_def)
  moreover have "partialStage ?cat None = None"
    by (simp add: partialStage_def)
  ultimately have "matchAccount ?cat None (pre @ ''Card 2979'' @ post)
      = digitFallback ?cat (extractDigits (pre @ ''Card 2979'' @ post))"
    by (rule matchAccount_fallback)
  also have "\<dots> = Some (acct ''a2'' ''ICICI ****2979'')"
    unfolding ex by (simp add: acct_def)
  finally show "matchAccount ?cat None (pre @ ''Card 2979'' @ post) = Some (acct ''a2'' ''ICICI ****2979'')" .
qed

theorem digitFallback_blocks_witness:
  "find (exactMatch None) [acct ''a1'' ''HSBC ****0001'', acct ''a2'' ''ICICI ****2979''] = None \<and>
   partialStage [acct ''a1'' ''HSBC ****0001'', acct ''a2'' ''ICICI ****2979''] None = None \<and>
   extractDigits ''Rs.500 spent on '' = [] \<and>
   matchAccount [acct ''a1'' ''HSBC ****0001'', acct ''a2'' ''ICICI ****2979''] None
     (''Rs.500 spent on '' @ ''Card 2979'' @ '' at Amazon'') = Some (acct ''a2'' ''ICICI ****2979'') \<and>
   matchAccount [acct ''a1'' ''HSBC ****0001'', acct ''a2'' ''ICICI ****2979''] None
     (''Rs.500 spent on '' @ ''Card 2979'' @ '' at Amazon'')
     = digitFallback [acct ''a1'' ''HSBC ****0001'', acct ''a2'' ''ICICI ****2979'']
         (extractDigits (''Rs.500 spent on '' @ ''Card 2979'' @ '' at Amazon'')) \<and>
   list_all (\<lambda>r. length r \<le> 4) (digitRuns ''Rs.500 spent on Card 2979 at Amazon'') \<and>
   extractDigits ''Rs.500 spent on Card 2979 at Amazon'' = [''2979''] \<and>
   runsOfExactlyFour ''Rs.500 spent on Card 2979 at Amazon'' = [''2979'']"
proof -
  let ?cat = "[acct ''a1'' ''HSBC ****0001'', acct ''a2'' ''ICICI ****2979'']"
  let ?sms = "''Rs.500 spent on Card 2979 at Amazon''"
  have h1: "find (exactMatch None) ?cat = None \<and> partialStage ?cat None = None"
    by code_simp
  have h2: "extractDigits ''Rs.500 spent on '' = []"
    by code_simp
  have h3: "list_all (\<lambda>r. length r \<le> 4) (digitRuns ?sms)"
    by code_simp
  then have h3': "\<forall>r\<in>set (digitRuns ?sms). length r \<le> 4"
    by (simp only: list_all_iff)
  have e: "runsOfExactlyFour ?sms = [''2979'']"
    by code_simp
  note t = digitFallback_blocks [of None ?cat "''Rs.500 spent on '' @ ''Card 2979'' @ '' at Amazon''"
      "[]" "acct ''a1'' ''HSBC ****0001''" "''Rs.500 spent on ''" "'' at Amazon''"]
  note u = digitFallback_blocks [of None ?cat ?sms "[]" "acct ''a1'' ''HSBC ****0001''" "[]" "[]"]
  from t h1 have c1: "matchAccount ?cat None (''Rs.500 spent on '' @ ''Card 2979'' @ '' at Amazon'')
     = digitFallback ?cat (extractDigits (''Rs.500 spent on '' @ ''Card 2979'' @ '' at Amazon''))"
    by blast
  from t h2 have c2: "matchAccount ?cat None (''Rs.500 spent on '' @ ''Card 2979'' @ '' at Amazon'')
     = Some (acct ''a2'' ''ICICI ****2979'')"
    by blast
  from u h3' have "extractDigits ?sms = runsOfExactlyFour ?sms"
    by blast
  with e have c3: "extractDigits ?sms = [''2979'']"
    by simp
  note h1a = h1 [THEN conjunct1] and h1b = h1 [THEN conjunct2]
  show ?thesis
    by (intro conjI h1a h1b h2 h3 c1 c2 c3 e)
qed

section \<open>Properties of the catalog cache\<close>

lemma reset_initial:
  "(st :: cache)\<lparr>actualReady := False, actualAccounts := [], actualCategories := []\<rparr> = initialCache"
  by (simp add: initialCache_def)

lemma tryInit_cases:
  "tryInit w st =
     (if initResult w \<noteq> None then (Inl (the (initResult w)), st, [Init])
      else if downloadBudgetResult w \<noteq> None
        then (Inl (the (downloadBudgetResult w)), st, [Init, DownloadBudget])
      else (case getAccountsResult w of
              Inl e \<Rightarrow> (Inl e, st, [Init, DownloadBudget, GetAccounts])
            | Inr accounts \<Rightarrow>
                if filter (\<lambda>a. \<not> closed a) accounts = []
                then (Inl NoActiveAccounts, st\<lparr>actualAccounts := []\<rparr>,
                      [Init, DownloadBudget, GetAccounts])
                else (case getCategoriesResult w of
                        Inl e \<Rightarrow> (Inl e, st\<lparr>actualAccounts := filter (\<lambda>a. \<not> closed a) accounts\<rparr>,
                                  [Init, DownloadBudget, GetAccounts, GetCategories])
                      | Inr categories \<Rightarrow>
                          (Inr (),
                           st\<lparr>actualAccounts := filter (\<lambda>a. \<not> closed a) accounts,
                              actualCategories :=
                                filter (\<lambda>c. \<not> hidden c \<and> category.name c \<noteq> []) categories,
                              actualReady := True\<rparr>,
                           [Init, DownloadBudget, GetAccounts, GetCategories]))))"
  by (auto simp: tryInit_def Let_def split: option.splits sum.splits)

lemma tryInit_success:
  "tryInit w st = (Inr u, st', tr) \<Longrightarrow>
     actualReady st' \<and> actualAccounts st' \<noteq> [] \<and>
     tr = [Init, DownloadBudget, GetAccounts, GetCategories]"
  by (auto simp: tryInit_cases split: if_splits sum.splits)

lemma tryInit_failure_trace:
  "tryInit w st = (Inl e, st', tr) \<Longrightarrow>
     set tr \<subseteq> {Init, DownloadBudget, GetAccounts, GetCategories} \<and> tr \<noteq> []"
  by (auto simp: tryInit_cases split: if_splits sum.splits)

lemma ensure_fast:
  "actualReady st \<Longrightarrow> actualAccounts st \<noteq> [] \<Longrightarrow> ensureActualReady w st = (Inr (), st, [])"
  by (simp add: ensureActualReady_def)

lemma ensure_slow:
  "\<not> (actualReady st \<and> actualAccounts st \<noteq> []) \<Longrightarrow>
   ensureActualReady w st =
     (case mkdirResult w of
        Some e \<Rightarrow> (Inl e, st, [EnsureDir])
      | None \<Rightarrow>
          (case tryInit w st of
             (Inr u, st', tr) \<Rightarrow> (Inr u, st', EnsureDir # tr)
           | (Inl e, st', tr) \<Rightarrow> (Inl e, initialCache, EnsureDir # tr @ [Shutdown])))"
  by (auto simp: ensureActualReady_def reset_initial split: option.splits prod.splits sum.splits)

lemma ensure_success:
  assumes "ensureActualReady w st = (Inr u, st', tr)"
  shows "actualReady st' \<and> actualAccounts st' \<noteq> []"
proof (cases "actualReady st \<and> actualAccounts st \<noteq> []")
  case True
  with assms show ?thesis by (simp add: ensure_fast)
next
  case False
  from assms show ?thesis
    unfolding ensure_slow [OF False]
    by (auto split: option.splits prod.splits sum.splits dest: tryInit_success)
qed

lemma ensure_failure:
  assumes "ensureActualReady w st = (Inl e, st', tr)"
  shows "\<not> (actualReady st \<and> actualAccounts st \<noteq> []) \<and>
         (case mkdirResult w of
            Some e' \<Rightarrow> e = e' \<and> st' = st \<and> tr = [EnsureDir]
          | None \<Rightarrow> fst (tryInit w st) = Inl e \<and> st' = initialCache \<and>
                    tr = EnsureDir # snd (snd (tryInit w st)) @ [Shutdown])"
proof (cases "actualReady st \<and> actualAccounts st \<noteq> []")
  case True
  with assms show ?thesis by (simp add: ensure_fast)
next
  case False
  from assms show ?thesis
    unfolding ensure_slow [OF False]
    using False by (auto split: option.splits prod.splits sum.splits)
qed

lemma ensure_events:
  "set (snd (snd (ensureActualReady w st))) \<subseteq>
     {EnsureDir, Init, DownloadBudget, GetAccounts, GetCategories, Shutdown}"
proof (cases "actualReady st \<and> actualAccounts st \<noteq> []")
  case True
  then show ?thesis by (simp add: ensure_fast)
next
  case False
  show ?thesis
    unfolding ensure_slow [OF False]
    by (auto split: option.splits prod.splits sum.splits
        dest!: tryInit_success tryInit_failure_trace)
qed

lemma ensure_inv:
  assumes "cacheInv st"
  shows "cacheInv (fst (snd (ensureActualReady w st)))"
proof (cases "ensureActualReady w st")
  case (fields r st' tr)
  show ?thesis
  proof (cases r)
    case (Inr u)
    with fields ensure_success [of w st u st' tr] show ?thesis by (simp add: cacheInv_def)
  next
    case (Inl e)
    with fields ensure_failure [of w st e st' tr] assms show ?thesis
      by (auto simp: cacheInv_def initialCache_def split: option.splits if_splits)
  qed
qed


lemma import_state: "fst (snd (importIntoActual w st sms p)) = fst (snd (ensureActualReady w st))"
  by (simp add: importIntoActual_def Let_def split: prod.splits sum.splits option.splits)

lemma import_match_events:
  assumes "MatchAccount accts l s \<in> set (snd (snd (importIntoActual w st sms p)))"
  shows "accts \<noteq> []"
proof (cases "ensureActualReady w st")
  case (fields r st1 tr)
  have noev: "MatchAccount accts l s \<notin> set tr"
    using ensure_events [of w st] fields by auto
  show ?thesis
  proof (cases r)
    case (Inl e)
    with fields assms noev show ?thesis by (simp add: importIntoActual_def)
  next
    case (Inr u)
    with fields have ne: "actualAccounts st1 \<noteq> []" using ensure_success by blast
    from assms fields Inr noev have "accts = actualAccounts st1"
      by (auto simp: importIntoActual_def Let_def split: option.splits sum.splits)
    with ne show ?thesis by simp
  qed
qed

lemma ingest_state:
  "fst (snd (ingest w st sms)) = st \<or>
   fst (snd (ingest w st sms)) = fst (snd (ensureActualReady w st)) \<or>
   fst (snd (ingest w st sms)) =
     fst (snd (ensureActualReady w (fst (snd (ensureActualReady w st)))))"
proof -
  have imp: "importIntoActual w st1 s p = (r, st2, tr2) \<Longrightarrow> st2 = fst (snd (ensureActualReady w st1))"
    for st1 s p r st2 tr2
    using import_state [of w st1 s p] by simp
  show ?thesis
    by (auto simp: ingest_def split: option.splits json.splits prod.splits sum.splits dest!: imp)
qed

lemma ingest_inv: "cacheInv st \<Longrightarrow> cacheInv (fst (snd (ingest w st sms)))"
  using ingest_state [of w st sms] ensure_inv [of st w]
    ensure_inv [of "fst (snd (ensureActualReady w st))" w]
  by auto

lemma ingest_match_events:
  assumes "MatchAccount accts l s \<in> set (snd (snd (ingest w st sms)))"
  shows "accts \<noteq> []"
proof -
  have noev: "MatchAccount accts l s \<notin> set (snd (snd (ensureActualReady w st)))"
    using ensure_events [of w st] by auto
  have imp: "importIntoActual w st1 s' p = (r, st2, tr2) \<Longrightarrow> MatchAccount accts l s \<in> set tr2
      \<Longrightarrow> accts \<noteq> []" for st1 s' p r st2 tr2
    using import_match_events [of accts l s w st1 s' p] by simp
  from assms noev show ?thesis
    by (auto simp: ingest_def split: option.splits json.splits prod.splits sum.splits if_splits
        dest: imp)
qed

lemma oneAtATime_inv: "oneAtATime st \<Longrightarrow> cacheInv st"
proof (induction rule: oneAtATime.induct)
  case start
  show ?case by (simp add: cacheInv_def initialCache_def)
next
  case (budget st w)
  then show ?case by (simp add: ensure_inv)
next
  case (request st w sms)
  then show ?case by (simp add: ingest_inv)
qed



subsection \<open>Interleaved requests\<close>

lemma runSchedule_interleaved:
  "interleaved st rs \<Longrightarrow> interleaved (fst (runSchedule sched (st, rs))) (snd (runSchedule sched (st, rs)))"
proof (induction sched arbitrary: st rs)
  case Nil
  then show ?case by simp
next
  case (Cons i sched)
  show ?case
  proof (cases "i < length rs")
    case False
    with Cons show ?thesis by simp
  next
    case True
    obtain w p where wp: "rs ! i = (w, p)" by (cases "rs ! i")
    obtain p' st' where r: "resume w p st = (p', st')" by (cases "resume w p st")
    from Cons.prems True wp r have "interleaved st' (rs[i := (w, p')])"
      by (rule interleaved.run)
    from Cons.IH [OF this] True wp r show ?thesis by simp
  qed
qed

lemma runAlone_ensure:
  "runAlone 7 w (AtGuard, st) =
     (Returned (fst (ensureActualReady w st)), fst (snd (ensureActualReady w st)))"
  by (auto simp: numeral_eq_Suc ensureActualReady_def tryInit_def Let_def
      split: option.splits sum.splits)

lemma runAlone_interleaved:
  "interleaved st (rs @ [(w, p)]) \<Longrightarrow>
   interleaved (snd (runAlone n w (p, st))) (rs @ [(w, fst (runAlone n w (p, st)))])"
proof (induction n arbitrary: p st)
  case 0
  then show ?case by simp
next
  case (Suc n)
  obtain p' st' where r: "resume w p st = (p', st')" by (cases "resume w p st")
  have "interleaved st' ((rs @ [(w, p)])[length rs := (w, p')])"
    by (rule interleaved.run [OF Suc.prems _ _ r]) simp_all
  then have "interleaved st' (rs @ [(w, p')])" by simp
  from Suc.IH [OF this] r show ?case by simp
qed

lemma ensure_interleaved:
  assumes "interleaved st rs"
  shows "\<exists>rs'. interleaved (fst (snd (ensureActualReady w st))) rs'"
proof -
  from assms have "interleaved st (rs @ [(w, AtGuard)])" by (rule interleaved.arrive)
  from runAlone_interleaved [OF this, of 7] show ?thesis
    by (auto simp: runAlone_ensure)
qed

lemma oneAtATime_interleaved: "oneAtATime st \<Longrightarrow> \<exists>rs. interleaved st rs"
proof (induction rule: oneAtATime.induct)
  case start
  show ?case using interleaved.boot by blast
next
  case (budget st w)
  then show ?case using ensure_interleaved by blast
next
  case (request st w sms)
  then obtain rs where rs: "interleaved st rs" by blast
  from ensure_interleaved [OF rs, of w] obtain rs1
    where rs1: "interleaved (fst (snd (ensureActualReady w st))) rs1" by blast
  from ensure_interleaved [OF rs1, of w] obtain rs2
    where rs2: "interleaved (fst (snd (ensureActualReady w (fst (snd (ensureActualReady w st)))))) rs2"
    by blast
  from ingest_state [of w st sms] rs rs1 rs2 show ?case by auto
qed

lemma resume_guard:
  "resume w AtGuard st = (Returned r, st') \<Longrightarrow>
     r = Inr () \<and> st' = st \<and> actualReady st \<and> actualAccounts st \<noteq> []"
  by (auto split: if_splits)

text \<open>
  Claim C10, as stated, fails on the code when two initializations interleave. Two calls
  arrive at a cold cache. The first one stores two open accounts and awaits the
  categories; the second one fails in \<open>init\<close>, shuts down and resets the cache; the first
  one resumes and sets the flag. The cache is then Ready with an empty list of accounts,
  both calls have returned, and the account matching that follows the first call finds no
  candidate.
\<close>

theorem ready_cache_counterexample:
  "interleaved (fst (runSchedule raceSchedule raceStart)) (snd (runSchedule raceSchedule raceStart)) \<and>
   actualReady (fst (runSchedule raceSchedule raceStart)) \<and>
   actualAccounts (fst (runSchedule raceSchedule raceStart)) = [] \<and>
   map snd (snd (runSchedule raceSchedule raceStart)) =
     [Returned (Inr ()), Returned (Inl (Thrown ''offline''))] \<and>
   map snd (snd (runSchedule (take 5 raceSchedule) raceStart)) = [AwaitGetCategories, AtGuard] \<and>
   actualAccounts (fst (runSchedule (take 5 raceSchedule) raceStart)) = openAccounts \<and>
   map snd (snd (runSchedule (take 9 raceSchedule) raceStart)) =
     [AwaitGetCategories, Returned (Inl (Thrown ''offline''))] \<and>
   fst (runSchedule (take 9 raceSchedule) raceStart) = initialCache \<and>
   matchAccount (actualAccounts (fst (runSchedule raceSchedule raceStart)))
     (Some ''HSBC ****0001'') ''Card 0001'' = None \<and>
   matchAccount openAccounts (Some ''HSBC ****0001'') ''Card 0001'' = Some (acct ''a1'' ''HSBC ****0001'')"
proof -
  have "interleaved initialCache ([] @ [(exampleWorld [], AtGuard)] @ [(offlineWorld, AtGuard)])"
    using interleaved.arrive [OF interleaved.arrive [OF interleaved.boot]] by simp
  then have "interleaved (fst raceStart) (snd raceStart)"
    by (simp add: raceStart_def)
  from runSchedule_interleaved [OF this, of raceSchedule]
  have i: "interleaved (fst (runSchedule raceSchedule raceStart)) (snd (runSchedule raceSchedule raceStart))"
    by simp
  have a: "actualReady (fst (runSchedule raceSchedule raceStart))"
    by code_simp
  have b: "actualAccounts (fst (runSchedule raceSchedule raceStart)) = []"
    by code_simp
  have c: "map snd (snd (runSchedule raceSchedule raceStart)) =
     [Returned (Inr ()), Returned (Inl (Thrown ''offline''))]"
    by code_simp
  have d: "map snd (snd (runSchedule (take 5 raceSchedule) raceStart)) = [AwaitGetCategories, AtGuard]"
    by code_simp
  have e: "actualAccounts (fst (runSchedule (take 5 raceSchedule) raceStart)) = openAccounts"
    by code_simp
  have f: "map snd (snd (runSchedule (take 9 raceSchedule) raceStart)) =
     [AwaitGetCategories, Returned (Inl (Thrown ''offline''))]"
    by code_simp
  have g: "fst (runSchedule (take 9 raceSchedule) raceStart) = initialCache"
    by code_simp
  have h: "matchAccount (actualAccounts (fst (runSchedule raceSchedule raceStart)))
     (Some ''HSBC ****0001'') ''Card 0001'' = None"
    by code_simp
  have k: "matchAccount openAccounts (Some ''HSBC ****0001'') ''Card 0001'' = Some (acct ''a1'' ''HSBC ****0001'')"
    by code_simp
  show ?thesis by (intro conjI i a b c d e f g h k)
qed

text \<open>
  Claim C10, amended. In every state the cache can reach by requests that run one after
  the other, Ready implies that the cached list of open accounts is not empty; every
  successful \<open>ensureActualReady\<close> that runs without another request in between leaves
  such a state, from whatever state it starts. When filtering the fetched accounts leaves
  none, the initialization fails with \<open>NoActiveAccounts\<close> (No active accounts found in
  Actual Budget) and resets the cache. So every account matching, in \<open>importIntoActual\<close>
  and in the handler, of a request that runs without another one in between sees at least
  one candidate account. Every such state is also a state of the interleaved requests, and
  a call that is resumed seven times with nothing in between does what
  \<open>ensureActualReady\<close> does. With interleaving the flag can stand over an empty list;
  a call returns at the guard, without initializing, only when the flag is set and the
  list is not empty, and initializes again otherwise.
\<close>

theorem ready_cache_nonempty:
  "(oneAtATime st \<longrightarrow> (actualReady st \<longrightarrow> actualAccounts st \<noteq> [])) \<and>
   (ensureActualReady w st = (Inr u, st', tr) \<longrightarrow> actualReady st' \<and> actualAccounts st' \<noteq> []) \<and>
   (\<not> (actualReady st \<and> actualAccounts st \<noteq> []) \<and> mkdirResult w = None \<and>
    initResult w = None \<and> downloadBudgetResult w = None \<and> getAccountsResult w = Inr accts \<and>
    filter (\<lambda>a. \<not> closed a) accts = [] \<longrightarrow>
      ensureActualReady w st =
        (Inl NoActiveAccounts, initialCache, [EnsureDir, Init, DownloadBudget, GetAccounts, Shutdown])) \<and>
   (MatchAccount seen l s \<in> set (snd (snd (importIntoActual w st sms p))) \<longrightarrow> seen \<noteq> []) \<and>
   (MatchAccount seen l s \<in> set (snd (snd (ingest w st req))) \<longrightarrow> seen \<noteq> []) \<and>
   (oneAtATime st \<longrightarrow> (\<exists>rs. interleaved st rs)) \<and>
   runAlone 7 w (AtGuard, st) =
     (Returned (fst (ensureActualReady w st)), fst (snd (ensureActualReady w st))) \<and>
   (resume w AtGuard st = (Returned r, st2) \<longrightarrow>
      r = Inr () \<and> st2 = st \<and> actualReady st \<and> actualAccounts st \<noteq> []) \<and>
   (\<not> (actualReady st \<and> actualAccounts st \<noteq> []) \<longrightarrow> resume w AtGuard st = (AwaitMkdir, st))"
proof (intro conjI impI)
  assume "oneAtATime st" and "actualReady st"
  then show "actualAccounts st \<noteq> []"
    using oneAtATime_inv [of st] by (simp add: cacheInv_def)
next
  assume s: "ensureActualReady w st = (Inr u, st', tr)"
  from ensure_success [OF s] show "actualReady st'" and "actualAccounts st' \<noteq> []" by simp_all
next
  assume h: "\<not> (actualReady st \<and> actualAccounts st \<noteq> []) \<and> mkdirResult w = None \<and>
    initResult w = None \<and> downloadBudgetResult w = None \<and> getAccountsResult w = Inr accts \<and>
    filter (\<lambda>a. \<not> closed a) accts = []"
  then have "\<not> (actualReady st \<and> actualAccounts st \<noteq> [])" by simp
  from ensure_slow [OF this, of w] h
  show "ensureActualReady w st =
        (Inl NoActiveAccounts, initialCache, [EnsureDir, Init, DownloadBudget, GetAccounts, Shutdown])"
    by (simp add: tryInit_cases)
next
  assume "MatchAccount seen l s \<in> set (snd (snd (importIntoActual w st sms p)))"
  then show "seen \<noteq> []" by (rule import_match_events)
next
  assume "MatchAccount seen l s \<in> set (snd (snd (ingest w st req)))"
  then show "seen \<noteq> []" by (rule ingest_match_events)
next
  assume "oneAtATime st"
  then show "\<exists>rs. interleaved st rs" by (rule oneAtATime_interleaved)
next
  show "runAlone 7 w (AtGuard, st) =
     (Returned (fst (ensureActualReady w st)), fst (snd (ensureActualReady w st)))"
    by (rule runAlone_ensure)
next
  assume r: "resume w AtGuard st = (Returned r, st2)"
  from resume_guard [OF r]
  show "r = Inr ()" and "st2 = st" and "actualReady st" and "actualAccounts st \<noteq> []"
    by simp_all
next
  assume "\<not> (actualReady st \<and> actualAccounts st \<noteq> [])"
  then show "resume w AtGuard st = (AwaitMkdir, st)" by auto
qed

theorem ready_cache_nonempty_witness:
  "oneAtATime (fst (snd (ensureActualReady (exampleWorld []) initialCache))) \<and>
   actualReady (fst (snd (ensureActualReady (exampleWorld []) initialCache))) \<and>
   actualAccounts (fst (snd (ensureActualReady (exampleWorld []) initialCache))) \<noteq> [] \<and>
   MatchAccount openAccounts (Some ''Axis'') ''Rs.500 spent at Amazon''
     \<in> set (snd (snd (importIntoActual (exampleWorld []) initialCache ''Rs.500 spent at Amazon''
                         noMatchParsed))) \<and>
   MatchAccount openAccounts (Some ''Axis'') ''Rs.500 spent at Amazon''
     \<in> set (snd (snd (ingest (exampleWorld (fragment noMatchContent True)) initialCache
                         (Some (JString ''Rs.500 spent at Amazon''))))) \<and>
   openAccounts \<noteq> [] \<and>
   (\<exists>rs. interleaved (fst (snd (ensureActualReady (exampleWorld []) initialCache))) rs) \<and>
   resume offlineWorld AtGuard readyCache = (Returned (Inr ()), readyCache) \<and>
   actualAccounts readyCache \<noteq> [] \<and>
   actualAccounts (fst (runSchedule raceSchedule raceStart)) = [] \<and>
   resume offlineWorld AtGuard (fst (runSchedule raceSchedule raceStart)) =
     (AwaitMkdir, fst (runSchedule raceSchedule raceStart))"
proof -
  let ?st = "fst (snd (ensureActualReady (exampleWorld []) initialCache))"
  let ?sms = "''Rs.500 spent at Amazon''"
  let ?raced = "fst (runSchedule raceSchedule raceStart)"
  have h1: "oneAtATime ?st"
    by (intro oneAtATime.budget oneAtATime.start)
  have h2: "actualReady ?st"
    by code_simp
  have h3: "MatchAccount openAccounts (Some ''Axis'') ?sms
     \<in> set (snd (snd (importIntoActual (exampleWorld []) initialCache ?sms noMatchParsed)))"
    by code_simp
  have h4: "MatchAccount openAccounts (Some ''Axis'') ?sms
     \<in> set (snd (snd (ingest (exampleWorld (fragment noMatchContent True)) initialCache
                         (Some (JString ?sms)))))"
    by code_simp
  have h5: "resume offlineWorld AtGuard readyCache = (Returned (Inr ()), readyCache)"
    by code_simp
  have h6: "actualAccounts ?raced = []"
    by code_simp
  from ready_cache_nonempty [of ?st] h1 h2 have c1: "actualAccounts ?st \<noteq> []"
    by blast
  from ready_cache_nonempty [of initialCache "exampleWorld []" "()" initialCache "[]" "[]"
      openAccounts "Some ''Axis''" ?sms ?sms noMatchParsed] h3
  have c2: "openAccounts \<noteq> []"
    by blast
  from ready_cache_nonempty [of ?st] h1 have c3: "\<exists>rs. interleaved ?st rs"
    by blast
  from ready_cache_nonempty [of readyCache offlineWorld _ _ _ _ _ _ _ _ _ _ "Inr ()" readyCache] h5
  have c4: "actualAccounts readyCache \<noteq> []"
    by blast
  from ready_cache_nonempty [of ?raced offlineWorld] h6
  have c5: "resume offlineWorld AtGuard ?raced = (AwaitMkdir, ?raced)"
    by blast
  show ?thesis
    by (intro conjI h1 h2 h3 h4 c1 c2 c3 h5 c4 h6 c5)
qed

section \<open>Properties of the model gateway\<close>

lemma assemble_step_content:
  "(case optMember (optMember (Some chunk) ''message'') ''content'' of
      Some (JString part) \<Rightarrow> acc @ part
    | _ \<Rightarrow> acc) = acc @ chunkContent chunk"
  by (simp add: chunkContent_def split: option.splits json.splits)

lemma assemble_spec_acc: "assemble acc ls = acc @ assembleSpec ls"
proof (induction ls arbitrary: acc)
  case Nil
  then show ?case by (simp add: assembleSpec_def List.map_filter_simps)
next
  case (Cons l ls)
  show ?case
  proof (cases "JSON_parse l")
    case None
    then have "assembleSpec (l # ls) = assembleSpec ls"
      by (simp add: assembleSpec_def List.map_filter_simps)
    with None Cons.IH show ?thesis by simp
  next
    case (Some chunk)
    show ?thesis
    proof (cases "chunkDone chunk")
      case True
      with Some have "assembleSpec (l # ls) = chunkContent chunk"
        by (simp add: assembleSpec_def List.map_filter_simps)
      with Some True show ?thesis
        by (simp add: assemble_step_content chunkDone_def Let_def)
    next
      case False
      with Some have "assembleSpec (l # ls) = chunkContent chunk @ assembleSpec ls"
        by (simp add: assembleSpec_def List.map_filter_simps Let_def)
      with Some False Cons.IH show ?thesis
        by (simp add: assemble_step_content chunkDone_def Let_def)
    qed
  qed
qed

text \<open>
  Claim C6. With a successful transport status, the gateway first parses the whole body
  as one JSON document and, when that succeeds, returns its content without reading lines.
  Only when that fails does it read the body line by line: of the lines that parse, in
  arrival order, it concatenates the string contents up to and with the first one whose
  completion flag is true; if nothing was assembled it fails with \<open>AssembleFailed\<close>. The
  three fragments \<open>{"amount"\<close>, \<open>:100}\<close> and an empty one with the completion flag
  assemble to \<open>{"amount":100}\<close>.
\<close>

theorem ollamaChatText_assembly:
  "(fetchResult w = Inr res \<and> ok res \<and> JSON_parse (body res) = Some obj \<longrightarrow>
      ollamaChatText w = Inr (contentString (toText w) obj)) \<and>
   (fetchResult w = Inr res \<and> ok res \<and> JSON_parse (body res) = None \<longrightarrow>
      ollamaChatText w =
        (if assembleSpec (ndjsonLines (body res)) = [] then Inl AssembleFailed
         else Inr (assembleSpec (ndjsonLines (body res))))) \<and>
   JSON_parse streamBody = None \<and>
   length (ndjsonLines streamBody) = 3 \<and>
   ollamaChatText (exampleWorld streamBody) = Inr (''{'' @ quoted ''amount'' @ '':100}'')"
proof (intro conjI impI)
  assume "fetchResult w = Inr res \<and> ok res \<and> JSON_parse (body res) = Some obj"
  then show "ollamaChatText w = Inr (contentString (toText w) obj)"
    by (simp add: ollamaChatText_def)
next
  assume "fetchResult w = Inr res \<and> ok res \<and> JSON_parse (body res) = None"
  then show "ollamaChatText w =
        (if assembleSpec (ndjsonLines (body res)) = [] then Inl AssembleFailed
         else Inr (assembleSpec (ndjsonLines (body res))))"
    using assemble_spec_acc [of "[]" "ndjsonLines (body res)"]
    by (simp add: ollamaChatText_def Let_def)
next
  show "JSON_parse streamBody = None"
    by code_simp
  show "length (ndjsonLines streamBody) = 3"
    by code_simp
  show "ollamaChatText (exampleWorld streamBody) = Inr (''{'' @ quoted ''amount'' @ '':100}'')"
    by code_simp
qed

theorem ollamaChatText_assembly_witness:
  "fetchResult (exampleWorld (fragment ''ok'' True)) = Inr \<lparr>ok = True, status = 200, body = fragment ''ok'' True\<rparr> \<and>
   JSON_parse (fragment ''ok'' True) =
     Some (JObject [(''message'', JObject [(''content'', JString ''ok'')]), (''done'', JBool True)]) \<and>
   ollamaChatText (exampleWorld (fragment ''ok'' True)) =
     Inr (contentString (toText (exampleWorld (fragment ''ok'' True)))
            (JObject [(''message'', JObject [(''content'', JString ''ok'')]), (''done'', JBool True)])) \<and>
   JSON_parse (fragment ''a'' False @ [CHR 0x0A] @ ''garbage'') = None \<and>
   ollamaChatText (exampleWorld (fragment ''a'' False @ [CHR 0x0A] @ ''garbage'')) =
     (if assembleSpec (ndjsonLines (fragment ''a'' False @ [CHR 0x0A] @ ''garbage'')) = []
      then Inl AssembleFailed
      else Inr (assembleSpec (ndjsonLines (fragment ''a'' False @ [CHR 0x0A] @ ''garbage'')))) \<and>
   assembleSpec (ndjsonLines (fragment ''a'' False @ [CHR 0x0A] @ ''garbage'')) = ''a''"
proof -
  let ?b1 = "fragment ''ok'' True"
  let ?b2 = "fragment ''a'' False @ [CHR 0x0A] @ ''garbage''"
  let ?o = "JObject [(''message'', JObject [(''content'', JString ''ok'')]), (''done'', JBool True)]"
  have f1: "fetchResult (exampleWorld ?b1) = Inr \<lparr>ok = True, status = 200, body = ?b1\<rparr>"
    by (simp add: exampleWorld_def)
  have f2: "fetchResult (exampleWorld ?b2) = Inr \<lparr>ok = True, status = 200, body = ?b2\<rparr>"
    by (simp add: exampleWorld_def)
  have p1: "JSON_parse ?b1 = Some ?o"
    by code_simp
  have p2: "JSON_parse ?b2 = None"
    by code_simp
  have a2: "assembleSpec (ndjsonLines ?b2) = ''a''"
    by code_simp
  from ollamaChatText_assembly [of "exampleWorld ?b1" "\<lparr>ok = True, status = 200, body = ?b1\<rparr>" ?o] f1 p1
  have c1: "ollamaChatText (exampleWorld ?b1) = Inr (contentString (toText (exampleWorld ?b1)) ?o)"
    by simp
  from ollamaChatText_assembly [of "exampleWorld ?b2" "\<lparr>ok = True, status = 200, body = ?b2\<rparr>" ?o] f2 p2
  have c2: "ollamaChatText (exampleWorld ?b2) =
     (if assembleSpec (ndjsonLines ?b2) = [] then Inl AssembleFailed
      else Inr (assembleSpec (ndjsonLines ?b2)))"
    by simp
  show ?thesis
    by (intro conjI f1 p1 c1 p2 c2 a2)
qed

section \<open>Properties of the response parser\<close>

lemma braceDepth_Cons:
  "braceDepth (c # u) =
     (if c = CHR ''{'' then 1 else if c = CHR ''}'' then - 1 else 0) + braceDepth u"
  by (simp add: braceDepth_def)

lemma braceDepth_Nil: "braceDepth [] = 0"
  by (simp add: braceDepth_def)

lemma scanBraces_iff:
  "scanBraces d seen t = Some r \<longleftrightarrow>
     (\<exists>n. 0 < n \<and> n \<le> length t \<and> d + braceDepth (take n t) = 0 \<and>
          (\<forall>m. 0 < m \<and> m < n \<longrightarrow> d + braceDepth (take m t) \<noteq> 0) \<and>
          r = seen @ take n t)"
proof (induction t arbitrary: d seen)
  case Nil
  then show ?case by simp
next
  case (Cons c cs)
  define d' where "d' = d + (if c = CHR ''{'' then 1 else if c = CHR ''}'' then - 1 else 0)"
  have step: "scanBraces d seen (c # cs) =
      (if d' = 0 then Some (seen @ [c]) else scanBraces d' (seen @ [c]) cs)"
    by (simp add: d'_def Let_def)
  have one: "d + braceDepth (take 1 (c # cs)) = d'"
    by (simp add: d'_def braceDepth_Cons braceDepth_Nil)
  have suc: "d + braceDepth (take (Suc k) (c # cs)) = d' + braceDepth (take k cs)" for k
    by (simp add: d'_def braceDepth_Cons)
  show ?case
  proof (cases "d' = 0")
    case True
    show ?thesis
    proof
      assume "scanBraces d seen (c # cs) = Some r"
      with step True have r: "r = seen @ take 1 (c # cs)" by simp
      have "0 < (1::nat) \<and> 1 \<le> length (c # cs) \<and> d + braceDepth (take 1 (c # cs)) = 0 \<and>
          (\<forall>m. 0 < m \<and> m < 1 \<longrightarrow> d + braceDepth (take m (c # cs)) \<noteq> 0) \<and>
          r = seen @ take 1 (c # cs)"
        using one True r by auto
      then show "\<exists>n. 0 < n \<and> n \<le> length (c # cs) \<and> d + braceDepth (take n (c # cs)) = 0 \<and>
          (\<forall>m. 0 < m \<and> m < n \<longrightarrow> d + braceDepth (take m (c # cs)) \<noteq> 0) \<and>
          r = seen @ take n (c # cs)" by blast
    next
      assume "\<exists>n. 0 < n \<and> n \<le> length (c # cs) \<and> d + braceDepth (take n (c # cs)) = 0 \<and>
          (\<forall>m. 0 < m \<and> m < n \<longrightarrow> d + braceDepth (take m (c # cs)) \<noteq> 0) \<and>
          r = seen @ take n (c # cs)"
      then obtain n where n: "0 < n" "n \<le> length (c # cs)"
        "\<forall>m. 0 < m \<and> m < n \<longrightarrow> d + braceDepth (take m (c # cs)) \<noteq> 0"
        "r = seen @ take n (c # cs)" by blast
      have "n = 1"
      proof (rule ccontr)
        assume "n \<noteq> 1"
        with n(1) have "0 < (1::nat) \<and> 1 < n" by simp
        with n(3) have "d + braceDepth (take 1 (c # cs)) \<noteq> 0" by blast
        with one True show False by simp
      qed
      with n(4) step True show "scanBraces d seen (c # cs) = Some r" by simp
    qed
  next
    case False
    with step have s: "scanBraces d seen (c # cs) = scanBraces d' (seen @ [c]) cs" by simp
    note IH = Cons.IH [of d' "seen @ [c]"]
    show ?thesis
    proof
      assume "scanBraces d seen (c # cs) = Some r"
      with s IH obtain k where k: "0 < k" "k \<le> length cs" "d' + braceDepth (take k cs) = 0"
        "\<forall>m. 0 < m \<and> m < k \<longrightarrow> d' + braceDepth (take m cs) \<noteq> 0"
        "r = (seen @ [c]) @ take k cs" by auto
      have "\<forall>m. 0 < m \<and> m < Suc k \<longrightarrow> d + braceDepth (take m (c # cs)) \<noteq> 0"
      proof (intro allI impI)
        fix m assume m: "0 < m \<and> m < Suc k"
        then obtain j where j: "m = Suc j" by (cases m) auto
        show "d + braceDepth (take m (c # cs)) \<noteq> 0"
        proof (cases "j = 0")
          case True
          with j one False show ?thesis by simp
        next
          case jpos: False
          with m j k(4) have "d' + braceDepth (take j cs) \<noteq> 0" by simp
          with j suc [of j] show ?thesis by simp
        qed
      qed
      with k suc [of k]
      have "0 < Suc k \<and> Suc k \<le> length (c # cs) \<and> d + braceDepth (take (Suc k) (c # cs)) = 0 \<and>
          (\<forall>m. 0 < m \<and> m < Suc k \<longrightarrow> d + braceDepth (take m (c # cs)) \<noteq> 0) \<and>
          r = seen @ take (Suc k) (c # cs)" by simp
      then show "\<exists>n. 0 < n \<and> n \<le> length (c # cs) \<and> d + braceDepth (take n (c # cs)) = 0 \<and>
          (\<forall>m. 0 < m \<and> m < n \<longrightarrow> d + braceDepth (take m (c # cs)) \<noteq> 0) \<and>
          r = seen @ take n (c # cs)" by blast
    next
      assume "\<exists>n. 0 < n \<and> n \<le> length (c # cs) \<and> d + braceDepth (take n (c # cs)) = 0 \<and>
          (\<forall>m. 0 < m \<and> m < n \<longrightarrow> d + braceDepth (take m (c # cs)) \<noteq> 0) \<and>
          r = seen @ take n (c # cs)"
      then obtain n where n: "0 < n" "n \<le> length (c # cs)" "d + braceDepth (take n (c # cs)) = 0"
        "\<forall>m. 0 < m \<and> m < n \<longrightarrow> d + braceDepth (take m (c # cs)) \<noteq> 0"
        "r = seen @ take n (c # cs)" by blast
      from n(1) obtain k where k: "n = Suc k" by (cases n) auto
      have kpos: "0 < k"
      proof (rule ccontr)
        assume "\<not> 0 < k"
        with k n(3) one False show False by simp
      qed
      have "\<forall>m. 0 < m \<and> m < k \<longrightarrow> d' + braceDepth (take m cs) \<noteq> 0"
      proof (intro allI impI)
        fix m assume "0 < m \<and> m < k"
        then have "0 < Suc m \<and> Suc m < n" using k by simp
        with n(4) have "d + braceDepth (take (Suc m) (c # cs)) \<noteq> 0" by blast
        with suc [of m] show "d' + braceDepth (take m cs) \<noteq> 0" by simp
      qed
      with kpos k n suc [of k]
      have "0 < k \<and> k \<le> length cs \<and> d' + braceDepth (take k cs) = 0 \<and>
          (\<forall>m. 0 < m \<and> m < k \<longrightarrow> d' + braceDepth (take m cs) \<noteq> 0) \<and>
          r = (seen @ [c]) @ take k cs" by simp
      then have "scanBraces d' (seen @ [c]) cs = Some r" using IH by blast
      with s show "scanBraces d seen (c # cs) = Some r" by simp
    qed
  qed
qed

lemma scanBraces_None_iff:
  "scanBraces d seen t = None \<longleftrightarrow>
     (\<forall>n. 0 < n \<and> n \<le> length t \<longrightarrow> d + braceDepth (take n t) \<noteq> 0)"
proof
  assume none: "scanBraces d seen t = None"
  show "\<forall>n. 0 < n \<and> n \<le> length t \<longrightarrow> d + braceDepth (take n t) \<noteq> 0"
  proof (rule ccontr)
    assume "\<not> (\<forall>n. 0 < n \<and> n \<le> length t \<longrightarrow> d + braceDepth (take n t) \<noteq> 0)"
    then have ex: "\<exists>n. 0 < n \<and> n \<le> length t \<and> d + braceDepth (take n t) = 0" by blast
    define n where "n = (LEAST n. 0 < n \<and> n \<le> length t \<and> d + braceDepth (take n t) = 0)"
    from ex have n: "0 < n \<and> n \<le> length t \<and> d + braceDepth (take n t) = 0"
      unfolding n_def by (rule LeastI_ex)
    have least: "\<forall>m. 0 < m \<and> m < n \<longrightarrow> d + braceDepth (take m t) \<noteq> 0"
    proof (intro allI impI)
      fix m assume m: "0 < m \<and> m < n"
      show "d + braceDepth (take m t) \<noteq> 0"
      proof
        assume "d + braceDepth (take m t) = 0"
        with m n have "0 < m \<and> m \<le> length t \<and> d + braceDepth (take m t) = 0" by simp
        then have "n \<le> m" unfolding n_def by (rule Least_le)
        with m show False by simp
      qed
    qed
    from n least have "scanBraces d seen t = Some (seen @ take n t)"
      unfolding scanBraces_iff by blast
    with none show False by simp
  qed
next
  assume all: "\<forall>n. 0 < n \<and> n \<le> length t \<longrightarrow> d + braceDepth (take n t) \<noteq> 0"
  show "scanBraces d seen t = None"
  proof (cases "scanBraces d seen t")
    case None
    then show ?thesis .
  next
    case (Some r)
    then obtain n where "0 < n \<and> n \<le> length t \<and> d + braceDepth (take n t) = 0"
      unfolding scanBraces_iff by blast
    with all show ?thesis by blast
  qed
qed

lemma dropWhile_brace_Nil: "dropWhile (\<lambda>c. c \<noteq> CHR ''{'') s = [] \<longleftrightarrow> CHR ''{'' \<notin> set s"
  by (induction s) auto

lemma extract_unfold:
  "extractFirstJsonObjectString s =
     (if CHR ''{'' \<notin> set s then Inl NoBraceFound
      else case scanBraces 0 [] (dropWhile (\<lambda>c. c \<noteq> CHR ''{'') s) of
             None \<Rightarrow> Inl UnterminatedObject
           | Some obj \<Rightarrow> Inr obj)"
proof (cases "dropWhile (\<lambda>c. c \<noteq> CHR ''{'') s")
  case Nil
  have "extractFirstJsonObjectString s = Inl NoBraceFound"
    unfolding extractFirstJsonObjectString_def Nil by simp
  moreover from Nil have "CHR ''{'' \<notin> set s" using dropWhile_brace_Nil [of s] by blast
  ultimately show ?thesis by simp
next
  case (Cons c cs)
  have "extractFirstJsonObjectString s =
      (case scanBraces 0 [] (c # cs) of None \<Rightarrow> Inl UnterminatedObject | Some obj \<Rightarrow> Inr obj)"
    unfolding extractFirstJsonObjectString_def Cons by simp
  moreover from Cons have "CHR ''{'' \<in> set s" using dropWhile_brace_Nil [of s] by auto
  ultimately show ?thesis unfolding Cons by simp
qed

lemma extract_NoBrace:
  "extractFirstJsonObjectString s = Inl NoBraceFound \<longleftrightarrow> CHR ''{'' \<notin> set s"
  unfolding extract_unfold by (simp split: option.splits)

lemma extract_Unterminated:
  "extractFirstJsonObjectString s = Inl UnterminatedObject \<longleftrightarrow>
     CHR ''{'' \<in> set s \<and>
     (\<forall>n. 0 < n \<and> n \<le> length (dropWhile (\<lambda>c. c \<noteq> CHR ''{'') s) \<longrightarrow>
        braceDepth (take n (dropWhile (\<lambda>c. c \<noteq> CHR ''{'') s)) \<noteq> 0)"
proof -
  define t where "t = dropWhile (\<lambda>c. c \<noteq> CHR ''{'') s"
  have "extractFirstJsonObjectString s = Inl UnterminatedObject \<longleftrightarrow>
      CHR ''{'' \<in> set s \<and> scanBraces 0 [] t = None"
    unfolding extract_unfold t_def by (simp split: option.splits)
  also have "scanBraces 0 [] t = None \<longleftrightarrow>
      (\<forall>n. 0 < n \<and> n \<le> length t \<longrightarrow> braceDepth (take n t) \<noteq> 0)"
    using scanBraces_None_iff [of 0 "[]" t] by simp
  finally show ?thesis unfolding t_def .
qed

lemma extract_Inr:
  "extractFirstJsonObjectString s = Inr obj \<longleftrightarrow>
     (\<exists>n. 0 < n \<and> n \<le> length (dropWhile (\<lambda>c. c \<noteq> CHR ''{'') s) \<and>
          braceDepth (take n (dropWhile (\<lambda>c. c \<noteq> CHR ''{'') s)) = 0 \<and>
          (\<forall>m. 0 < m \<and> m < n \<longrightarrow> braceDepth (take m (dropWhile (\<lambda>c. c \<noteq> CHR ''{'') s)) \<noteq> 0) \<and>
          obj = take n (dropWhile (\<lambda>c. c \<noteq> CHR ''{'') s))"
proof -
  define t where "t = dropWhile (\<lambda>c. c \<noteq> CHR ''{'') s"
  have sc: "scanBraces 0 [] t = Some obj \<longleftrightarrow>
      (\<exists>n. 0 < n \<and> n \<le> length t \<and> braceDepth (take n t) = 0 \<and>
          (\<forall>m. 0 < m \<and> m < n \<longrightarrow> braceDepth (take m t) \<noteq> 0) \<and> obj = take n t)"
    using scanBraces_iff [of 0 "[]" t obj] by simp
  show ?thesis
  proof (cases "CHR ''{'' \<in> set s")
    case True
    then have "extractFirstJsonObjectString s = Inr obj \<longleftrightarrow> scanBraces 0 [] t = Some obj"
      unfolding extract_unfold t_def by (simp split: option.splits)
    with sc show ?thesis unfolding t_def by simp
  next
    case False
    then have "t = []" unfolding t_def using dropWhile_brace_Nil [of s] by blast
    moreover from False have "extractFirstJsonObjectString s \<noteq> Inr obj"
      unfolding extract_unfold by simp
    ultimately show ?thesis unfolding t_def [symmetric] by simp
  qed
qed

lemma neverBalances_iff:
  "neverBalances s \<longleftrightarrow>
     (\<forall>n. 0 < n \<and> n \<le> length (dropWhile (\<lambda>c. c \<noteq> CHR ''{'') s) \<longrightarrow>
        braceDepth (take n (dropWhile (\<lambda>c. c \<noteq> CHR ''{'') s)) \<noteq> 0)"
proof -
  define t where "t = dropWhile (\<lambda>c. c \<noteq> CHR ''{'') s"
  have "set [1..<Suc (length t)] = {n. 0 < n \<and> n \<le> length t}" by auto
  then have "list_all (\<lambda>n. braceDepth (take n t) \<noteq> 0) [1..<Suc (length t)] \<longleftrightarrow>
      (\<forall>n. 0 < n \<and> n \<le> length t \<longrightarrow> braceDepth (take n t) \<noteq> 0)"
    unfolding list_all_iff by blast
  then show ?thesis by (simp add: neverBalances_def Let_def t_def)
qed

text \<open>
  Claim C7, as stated, fails on the code: the parser also fails when the text has an
  opening brace and the depth does return to zero. The depth count does not skip braces
  inside string literals, so from \<open>Result: {"description":"a}b"}\<close>, which holds a valid
  object, it cuts \<open>{"description":"a}\<close> and the parse of that throws; and \<open>{abc}\<close> is
  balanced but no JSON.
\<close>

theorem parseModelJsonFromText_counterexample:
  "parseModelJsonFromText braceInString = Inl JsonSyntaxError \<and>
   \<not> (CHR ''{'' \<notin> set (trim (stripCodeFences braceInString)) \<or>
      neverBalances (trim (stripCodeFences braceInString))) \<and>
   JSON_parse (trim (stripCodeFences braceInString)) = None \<and>
   JSON_parse (drop 8 braceInString) = Some (JObject [(''description'', JString ''a}b'')]) \<and>
   parseModelJsonFromText ''{abc}'' = Inl JsonSyntaxError \<and>
   \<not> (CHR ''{'' \<notin> set (trim (stripCodeFences ''{abc}'')) \<or> neverBalances (trim (stripCodeFences ''{abc}'')))"
  by code_simp

text \<open>
  Claim C7, amended. The parser strips an optional code fence, trims, and returns the
  direct parse when it succeeds. When it fails, the parser fails with \<open>NoBraceFound\<close>
  exactly when the text has no opening brace, and with \<open>UnterminatedObject\<close> exactly when
  it has one and the depth, counted character by character from the first opening brace,
  never returns to zero; otherwise it parses exactly the substring from the first opening
  brace to the first position where the depth is zero, and fails with the syntax error of
  that parse when the substring is no JSON. For the fenced example it returns the five-key
  object.
\<close>

theorem parseModelJsonFromText_cases:
  "(JSON_parse (trim (stripCodeFences text)) = Some v \<longrightarrow> parseModelJsonFromText text = Inr v) \<and>
   (JSON_parse (trim (stripCodeFences text)) = None \<longrightarrow>
      (parseModelJsonFromText text = Inl NoBraceFound \<longleftrightarrow>
         CHR ''{'' \<notin> set (trim (stripCodeFences text))) \<and>
      (parseModelJsonFromText text = Inl UnterminatedObject \<longleftrightarrow>
         CHR ''{'' \<in> set (trim (stripCodeFences text)) \<and> neverBalances (trim (stripCodeFences text))) \<and>
      (0 < n \<and> n \<le> length (dropWhile (\<lambda>c. c \<noteq> CHR ''{'') (trim (stripCodeFences text))) \<and>
       braceDepth (take n (dropWhile (\<lambda>c. c \<noteq> CHR ''{'') (trim (stripCodeFences text)))) = 0 \<and>
       (\<forall>m. 0 < m \<and> m < n \<longrightarrow>
          braceDepth (take m (dropWhile (\<lambda>c. c \<noteq> CHR ''{'') (trim (stripCodeFences text)))) \<noteq> 0) \<longrightarrow>
         parseModelJsonFromText text =
           (case JSON_parse (take n (dropWhile (\<lambda>c. c \<noteq> CHR ''{'') (trim (stripCodeFences text)))) of
              Some v \<Rightarrow> Inr v
            | None \<Rightarrow> Inl JsonSyntaxError))) \<and>
   stripCodeFences fencedText = fiveKeyText \<and>
   parseModelJsonFromText fencedText = Inr fiveKeyObject"
proof (intro conjI impI)
  assume "JSON_parse (trim (stripCodeFences text)) = Some v"
  then show "parseModelJsonFromText text = Inr v"
    by (simp add: parseModelJsonFromText_def)
next
  define s where "s = trim (stripCodeFences text)"
  assume "JSON_parse (trim (stripCodeFences text)) = None"
  then have none: "JSON_parse s = None" by (simp add: s_def)
  then have p: "parseModelJsonFromText text =
      (case extractFirstJsonObjectString s of
         Inl e \<Rightarrow> Inl e
       | Inr objStr \<Rightarrow> (case JSON_parse objStr of Some v \<Rightarrow> Inr v | None \<Rightarrow> Inl JsonSyntaxError))"
    by (simp add: parseModelJsonFromText_def s_def)
  have "parseModelJsonFromText text = Inl NoBraceFound \<longleftrightarrow> CHR ''{'' \<notin> set s"
    unfolding p using extract_NoBrace [of s] by (auto split: sum.splits option.splits)
  then show "parseModelJsonFromText text = Inl NoBraceFound \<longleftrightarrow>
      CHR ''{'' \<notin> set (trim (stripCodeFences text))"
    by (simp add: s_def)
  have "parseModelJsonFromText text = Inl UnterminatedObject \<longleftrightarrow>
      extractFirstJsonObjectString s = Inl UnterminatedObject"
    unfolding p by (auto split: sum.splits option.splits)
  then show "parseModelJsonFromText text = Inl UnterminatedObject \<longleftrightarrow>
      CHR ''{'' \<in> set (trim (stripCodeFences text)) \<and> neverBalances (trim (stripCodeFences text))"
    using extract_Unterminated [of s] neverBalances_iff [of s] by (simp add: s_def)
  {
    assume "0 < n \<and> n \<le> length (dropWhile (\<lambda>c. c \<noteq> CHR ''{'') (trim (stripCodeFences text))) \<and>
       braceDepth (take n (dropWhile (\<lambda>c. c \<noteq> CHR ''{'') (trim (stripCodeFences text)))) = 0 \<and>
       (\<forall>m. 0 < m \<and> m < n \<longrightarrow>
          braceDepth (take m (dropWhile (\<lambda>c. c \<noteq> CHR ''{'') (trim (stripCodeFences text)))) \<noteq> 0)"
    then have "extractFirstJsonObjectString s = Inr (take n (dropWhile (\<lambda>c. c \<noteq> CHR ''{'') s))"
      unfolding extract_Inr s_def by blast
    then show "parseModelJsonFromText text =
           (case JSON_parse (take n (dropWhile (\<lambda>c. c \<noteq> CHR ''{'') (trim (stripCodeFences text)))) of
              Some v \<Rightarrow> Inr v
            | None \<Rightarrow> Inl JsonSyntaxError)"
      unfolding p by (simp add: s_def)
  }
next
  show "stripCodeFences fencedText = fiveKeyText"
    by code_simp
  show "parseModelJsonFromText fencedText = Inr fiveKeyObject"
    by code_simp
qed

theorem parseModelJsonFromText_cases_witness:
  "JSON_parse (trim (stripCodeFences (''```'' @ ''[true]'' @ ''```''))) = Some (JArray [JBool True]) \<and>
   parseModelJsonFromText (''```'' @ ''[true]'' @ ''```'') = Inr (JArray [JBool True]) \<and>
   JSON_parse (trim (stripCodeFences ''Sorry, no data'')) = None \<and>
   CHR ''{'' \<notin> set (trim (stripCodeFences ''Sorry, no data'')) \<and>
   parseModelJsonFromText ''Sorry, no data'' = Inl NoBraceFound \<and>
   JSON_parse (trim (stripCodeFences ''x {{}'')) = None \<and>
   neverBalances (trim (stripCodeFences ''x {{}'')) \<and>
   parseModelJsonFromText ''x {{}'' = Inl UnterminatedObject \<and>
   JSON_parse (trim (stripCodeFences ''ok {} bye'')) = None \<and>
   braceDepth (take 2 (dropWhile (\<lambda>c. c \<noteq> CHR ''{'') (trim (stripCodeFences ''ok {} bye'')))) = 0 \<and>
   parseModelJsonFromText ''ok {} bye'' =
     (case JSON_parse (take 2 (dropWhile (\<lambda>c. c \<noteq> CHR ''{'') (trim (stripCodeFences ''ok {} bye'')))) of
        Some v \<Rightarrow> Inr v
      | None \<Rightarrow> Inl JsonSyntaxError) \<and>
   parseModelJsonFromText ''ok {} bye'' = Inr (JObject [])"
proof -
  let ?t1 = "''```'' @ ''[true]'' @ ''```''"
  let ?t2 = "''Sorry, no data''"
  let ?t3 = "''x {{}''"
  let ?t4 = "''ok {} bye''"
  let ?d = "dropWhile (\<lambda>c. c \<noteq> CHR ''{'') (trim (stripCodeFences ?t4))"
  have h1: "JSON_parse (trim (stripCodeFences ?t1)) = Some (JArray [JBool True])" by code_simp
  have h2: "JSON_parse (trim (stripCodeFences ?t2)) = None" by code_simp
  have h2': "CHR ''{'' \<notin> set (trim (stripCodeFences ?t2))" by code_simp
  have h3: "JSON_parse (trim (stripCodeFences ?t3)) = None" by code_simp
  have h3': "CHR ''{'' \<in> set (trim (stripCodeFences ?t3))" by code_simp
  have h3'': "neverBalances (trim (stripCodeFences ?t3))" by code_simp
  have h4: "JSON_parse (trim (stripCodeFences ?t4)) = None" by code_simp
  have h4a: "0 < (2::nat) \<and> 2 \<le> length ?d" by code_simp
  have h4b: "braceDepth (take 2 ?d) = 0" by code_simp
  have "braceDepth (take 1 ?d) \<noteq> 0" by code_simp
  then have h4c: "\<forall>m. 0 < m \<and> m < (2::nat) \<longrightarrow> braceDepth (take m ?d) \<noteq> 0"
    by (auto simp: less_Suc_eq numeral_2_eq_2)
  have e4: "parseModelJsonFromText ?t4 = Inr (JObject [])" by code_simp
  from parseModelJsonFromText_cases [of ?t1 "JArray [JBool True]" 0] h1
  have c1: "parseModelJsonFromText ?t1 = Inr (JArray [JBool True])" by blast
  from parseModelJsonFromText_cases [of ?t2 JNull 0] h2 h2'
  have c2: "parseModelJsonFromText ?t2 = Inl NoBraceFound" by blast
  from parseModelJsonFromText_cases [of ?t3 JNull 0] h3 h3' h3''
  have c3: "parseModelJsonFromText ?t3 = Inl UnterminatedObject" by blast
  from parseModelJsonFromText_cases [of ?t4 JNull 2] h4 h4a h4b h4c
  have c4: "parseModelJsonFromText ?t4 =
     (case JSON_parse (take 2 ?d) of Some v \<Rightarrow> Inr v | None \<Rightarrow> Inl JsonSyntaxError)"
    by blast
  show ?thesis
    by (intro conjI h1 c1 h2 h2' c2 h3 h3'' c3 h4 h4b c4 e4)
qed

section \<open>Properties of the request handler\<close>

lemma ensure_success_trace:
  assumes "ensureActualReady w st = (Inr u, st', tr)"
  shows "set tr \<subseteq> {EnsureDir, Init, DownloadBudget, GetAccounts, GetCategories}"
proof (cases "actualReady st \<and> actualAccounts st \<noteq> []")
  case True
  with assms show ?thesis by (simp add: ensure_fast)
next
  case False
  from assms show ?thesis
    unfolding ensure_slow [OF False]
    by (auto split: option.splits prod.splits sum.splits dest!: tryInit_success)
qed

lemma ingest_Ignored:
  assumes "fst (ingest w st req) = Ignored p"
  shows "\<exists>s u st1 tr j. req = Some (JString s) \<and> s \<noteq> [] \<and>
           ensureActualReady w st = (Inr u, st1, tr) \<and> ollamaParse w = Inr j \<and>
           validateParsed j = Inr p \<and> parsed.amount p = None \<and>
           ingest w st req = (Ignored p, st1, tr @ [OllamaChat])"
  using assms
  by (auto simp: ingest_def split: option.splits json.splits prod.splits sum.splits if_splits)

text \<open>
  Claim C2. When the validated extraction has a null amount, the handler answers
  \<open>ignored\<close> with the extraction right after the validation: the cache is as
  \<open>ensureActualReady\<close> left it and the trace holds only the initialization calls and the
  call of the inference service. Whenever the answer is \<open>ignored\<close>, the amount is null
  and no account matching, category matching or ledger import has taken place.
\<close>

theorem ingest_ignored:
  "(s \<noteq> [] \<and> ensureActualReady w st = (Inr u, st1, tr) \<and> ollamaParse w = Inr j \<and>
    validateParsed j = Inr p \<and> parsed.amount p = None \<longrightarrow>
      ingest w st (Some (JString s)) = (Ignored p, st1, tr @ [OllamaChat]) \<and>
      set (tr @ [OllamaChat]) \<subseteq>
        {EnsureDir, Init, DownloadBudget, GetAccounts, GetCategories, OllamaChat}) \<and>
   (fst (ingest w st req) = Ignored q \<longrightarrow>
      parsed.amount q = None \<and>
      set (snd (snd (ingest w st req))) \<subseteq>
        {EnsureDir, Init, DownloadBudget, GetAccounts, GetCategories, OllamaChat})"
proof (intro conjI impI)
  assume h: "s \<noteq> [] \<and> ensureActualReady w st = (Inr u, st1, tr) \<and> ollamaParse w = Inr j \<and>
    validateParsed j = Inr p \<and> parsed.amount p = None"
  then show "ingest w st (Some (JString s)) = (Ignored p, st1, tr @ [OllamaChat])"
    by (simp add: ingest_def)
  from h ensure_success_trace [of w st u st1 tr]
  show "set (tr @ [OllamaChat]) \<subseteq>
        {EnsureDir, Init, DownloadBudget, GetAccounts, GetCategories, OllamaChat}"
    by auto
next
  assume "fst (ingest w st req) = Ignored q"
  from ingest_Ignored [OF this] obtain s u st1 tr j where
    r: "ensureActualReady w st = (Inr u, st1, tr)" "parsed.amount q = None"
       "ingest w st req = (Ignored q, st1, tr @ [OllamaChat])"
    by blast
  from r(2) show "parsed.amount q = None" .
  from r(3) ensure_success_trace [OF r(1)]
  show "set (snd (snd (ingest w st req))) \<subseteq>
        {EnsureDir, Init, DownloadBudget, GetAccounts, GetCategories, OllamaChat}"
    by auto
qed

theorem ingest_ignored_witness:
  "ensureActualReady (exampleWorld (fragment nullContent True)) initialCache =
     (Inr (), readyCache, [EnsureDir, Init, DownloadBudget, GetAccounts, GetCategories]) \<and>
   ollamaParse (exampleWorld (fragment nullContent True)) =
     Inr (JObject [(''amount'', JNull), (''description'', JNull), (''date'', JNull),
                   (''account'', JNull), (''category'', JNull)]) \<and>
   validateParsed (JObject [(''amount'', JNull), (''description'', JNull), (''date'', JNull),
                   (''account'', JNull), (''category'', JNull)]) = Inr nullParsed \<and>
   parsed.amount nullParsed = None \<and>
   ingest (exampleWorld (fragment nullContent True)) initialCache (Some (JString ''Your OTP is 123456'')) =
     (Ignored nullParsed, readyCache,
      [EnsureDir, Init, DownloadBudget, GetAccounts, GetCategories] @ [OllamaChat])"
proof -
  let ?w = "exampleWorld (fragment nullContent True)"
  let ?j = "JObject [(''amount'', JNull), (''description'', JNull), (''date'', JNull),
                   (''account'', JNull), (''category'', JNull)]"
  have h0: "''Your OTP is 123456'' \<noteq> []" by simp
  have h1: "ensureActualReady ?w initialCache =
     (Inr (), readyCache, [EnsureDir, Init, DownloadBudget, GetAccounts, GetCategories])"
    by code_simp
  have h2: "ollamaParse ?w = Inr ?j"
    by code_simp
  have h3: "validateParsed ?j = Inr nullParsed"
    by code_simp
  have h4: "parsed.amount nullParsed = None"
    by (simp add: nullParsed_def)
  from ingest_ignored [of "''Your OTP is 123456''" ?w initialCache "()" readyCache
      "[EnsureDir, Init, DownloadBudget, GetAccounts, GetCategories]" ?j nullParsed] h0 h1 h2 h3 h4
  have c: "ingest ?w initialCache (Some (JString ''Your OTP is 123456'')) =
     (Ignored nullParsed, readyCache,
      [EnsureDir, Init, DownloadBudget, GetAccounts, GetCategories] @ [OllamaChat])"
    by blast
  show ?thesis
    by (intro conjI h1 h2 h3 h4 c)
qed

end
